theory Spec2Isabelle
  imports Main "HOL-Library.Sublist"
begin

section \<open>JavaScript strings\<close>

text \<open>
  A JavaScript string is a sequence of UTF-16 code units.  A code unit is modelled by its
  number; no function below does arithmetic on code units, they are only compared.
  ASCII literals are written \<open>js ''...''\<close>.
\<close>

type_synonym jschar = nat
type_synonym jsstring = "jschar list"

definition js :: "string \<Rightarrow> jsstring" where
  "js s = map of_char s"

text \<open>\<^verbatim>\<open>String.prototype.indexOf\<close>: the first position at which the pattern occurs, \<open>-1\<close> if none.\<close>

fun indexOf :: "jsstring \<Rightarrow> jsstring \<Rightarrow> int" where
  "indexOf [] pat = (if pat = [] then 0 else - 1)"
| "indexOf (c # cs) pat =
     (if prefix pat (c # cs) then 0
      else (let i = indexOf cs pat in if i = - 1 then - 1 else i + 1))"

text \<open>
  \<^verbatim>\<open>Number.prototype.toString(36)\<close> on a non-negative integer: the digits
  \<open>0..9\<close>, \<open>a..z\<close>, most significant first, no leading zero.
\<close>

definition digit36 :: "nat \<Rightarrow> jschar" where
  "digit36 d = (if d < 10 then 48 + d else 87 + d)"

function toString36 :: "nat \<Rightarrow> jsstring" where
  "toString36 n = (if n < 36 then [digit36 n] else toString36 (n div 36) @ [digit36 (n mod 36)])"
  by pat_completeness auto
termination
  by (relation "measure id") auto

declare toString36.simps [simp del]

text \<open>Character classes of JavaScript regular expressions: \<^verbatim>\<open>\s\<close>, \<^verbatim>\<open>\d\<close>.\<close>

definition isSpace :: "jschar \<Rightarrow> bool" where
  "isSpace c = (c \<in> {9, 10, 11, 12, 13, 32, 160, 0x1680, 0x2028, 0x2029, 0x202f, 0x205f, 0x3000, 0xfeff}
                \<or> (0x2000 \<le> c \<and> c \<le> 0x200a))"

definition isDigit :: "jschar \<Rightarrow> bool" where
  "isDigit c = (48 \<le> c \<and> c \<le> 57)"

section \<open>The hybrid text model: class DomChaos (VDom.ts)\<close>

text \<open>
  \<open>proxyStorage\<close> is a JavaScript object used as a dictionary.  Its keys are marks, which
  are never integer-like, so \<^verbatim>\<open>for (mark in proxyStorage)\<close> enumerates them in insertion
  order: an association list, newest entry last.

  \<open>markCount\<close> is a JavaScript number, an IEEE 754 double.  The field is only ever reset to
  \<open>0\<close> and incremented, so it holds a non-negative integer, and it is modelled by that
  integer.  \<^verbatim>\<open>markCount++\<close> is not addition on the integers: the sum is rounded to the
  nearest double, ties to the even significand.  Below \<open>2^53\<close> the sum is exact.  At \<open>2^53\<close>
  the sum \<open>2^53 + 1\<close> lies halfway between the doubles \<open>2^53\<close> and \<open>2^53 + 2\<close> and is
  rounded back to \<open>2^53\<close>: a counter that started at \<open>0\<close> stops there.  (For the sake of
  completeness: the doubles from \<open>2^53\<close> to \<open>2^54\<close> are the even integers, where the tie
  goes up exactly when the half is odd; from \<open>2^54\<close> on the sum is nearer to the value
  itself.)
\<close>

definition counterLimit :: nat where
  "counterLimit = 2 ^ 53"

definition increment :: "nat \<Rightarrow> nat" where
  "increment n =
     (if n < counterLimit then n + 1
      else if n < 2 * counterLimit \<and> odd (n div 2) then n + 2
      else n)"

record DomChaos =
  textv :: jsstring
  proxyStorage :: "(jsstring \<times> jsstring) list"
  markCount :: nat

definition markPrefix :: jsstring where
  "markPrefix = [0xfffc, 0xfff9]"

definition markSuffix :: jsstring where
  "markSuffix = [0xfffb]"

text \<open>The candidate mark built in the loop body of \<open>nextMark\<close> for a counter value.\<close>

definition mark_of :: "nat \<Rightarrow> jsstring" where
  "mark_of k = markPrefix @ toString36 k @ markSuffix"

text \<open>
  \<open>nextMark\<close>: the do-while loop.  Each iteration increments the counter, builds the
  candidate and tests it against the current text.  The loop is defined without any
  assumption that it ends: not returning is the value \<open>None\<close>.
\<close>

partial_function (option) nextMark :: "DomChaos \<Rightarrow> (jsstring \<times> DomChaos) option" where
  "nextMark s =
     (let s1 = s\<lparr>markCount := increment (markCount s)\<rparr>;
          mark = markPrefix @ toString36 (markCount s1) @ markSuffix
      in if indexOf (textv s1) mark \<noteq> - 1 then nextMark s1 else Some (mark, s1))"

text \<open>
  The counter values the loop of \<open>nextMark\<close> can still reach from a state and whose mark
  does not occur in the text of that state.
\<close>

definition unusedCounters :: "DomChaos \<Rightarrow> nat set" where
  "unusedCounters s = {k. markCount s < k \<and> k \<le> counterLimit \<and> \<not> sublist (mark_of k) (textv s)}"

text \<open>\<^verbatim>\<open>obj[key] = value\<close>: overwrite in place if the key exists, else add it last.\<close>

fun store :: "(jsstring \<times> jsstring) list \<Rightarrow> jsstring \<Rightarrow> jsstring \<Rightarrow> (jsstring \<times> jsstring) list" where
  "store [] k v = [(k, v)]"
| "store ((k', v') # kvs) k v = (if k' = k then (k, v) # kvs else (k', v') # store kvs k v)"

definition createProxy :: "DomChaos \<Rightarrow> jsstring \<Rightarrow> (jsstring \<times> DomChaos) option" where
  "createProxy s reality =
     (case nextMark s of
        None \<Rightarrow> None
      | Some (mark, s1) \<Rightarrow> Some (mark, s1\<lparr>proxyStorage := store (proxyStorage s1) mark reality\<rparr>))"

text \<open>
  Successive \<open>createProxy\<close> calls on one model with no reset of the counter in between
  (the only reset is in \<open>setHTML\<close>).  Between two calls other methods may assign the text
  (\<open>setHTML\<close> and \<open>replace\<close> do, after their digest ran), so each call comes with the text the
  model holds at that moment and the fragment to store.  The marks are returned in call order.
\<close>

fun createProxies :: "DomChaos \<Rightarrow> (jsstring \<times> jsstring) list \<Rightarrow> (jsstring list \<times> DomChaos) option" where
  "createProxies s [] = Some ([], s)"
| "createProxies s ((t, reality) # calls) =
     (case createProxy (s\<lparr>textv := t\<rparr>) reality of
        None \<Rightarrow> None
      | Some (mark, s1) \<Rightarrow>
          (case createProxies s1 calls of
             None \<Rightarrow> None
           | Some (marks, s2) \<Rightarrow> Some (mark # marks, s2)))"

subsection \<open>Digesting markup: digestHTML, setHTML, replace\<close>

text \<open>Character classes: \<^verbatim>\<open>\w\<close>, and the line terminators that \<^verbatim>\<open>.\<close> does not match.\<close>

definition isWordChar :: "jschar \<Rightarrow> bool" where
  "isWordChar c = ((65 \<le> c \<and> c \<le> 90) \<or> (97 \<le> c \<and> c \<le> 122) \<or> (48 \<le> c \<and> c \<le> 57) \<or> c = 95)"

definition isLineTerminator :: "jschar \<Rightarrow> bool" where
  "isLineTerminator c = (c = 10 \<or> c = 13 \<or> c = 0x2028 \<or> c = 0x2029)"

text \<open>
  The three patterns of \<open>digestHTML\<close>, each as the length of its match at the start of the
  given string (\<open>None\<close>: no match there).  None of them has an anchor, so whether it matches
  at a position depends only on the string from that position on.

  \<^verbatim>\<open>/<!--.+?-->/\<close>: after \<^verbatim>\<open><!--\<close> and one character, the lazy \<^verbatim>\<open>.+?\<close> stops at the
  first \<^verbatim>\<open>-->\<close> and gives up at a line terminator.
\<close>

fun comment_tail :: "jsstring \<Rightarrow> nat option" where
  "comment_tail [] = None"
| "comment_tail (c # cs) =
     (if prefix (js ''-->'') (c # cs) then Some 3
      else if isLineTerminator c then None
      else map_option Suc (comment_tail cs))"

definition match_comment :: "jsstring \<Rightarrow> nat option" where
  "match_comment s =
     (if prefix (js ''<!--'') s then
        (case drop 4 s of
           [] \<Rightarrow> None
         | c # cs \<Rightarrow> if isLineTerminator c then None else map_option (\<lambda>n. n + 5) (comment_tail cs))
      else None)"

text \<open>
  \<^verbatim>\<open>/<\/?\w+(\s+[^>]+)?>/\<close>.  The slash is taken when it is there (a slash is no word
  character).  \<^verbatim>\<open>\w+\<close> takes the whole run of word characters: after a shorter run the next
  character is a word character, which is neither white space nor \<^verbatim>\<open>>\<close>.  Then either
  \<^verbatim>\<open>>\<close> follows at once, or white space follows and the group takes everything up to the
  next \<^verbatim>\<open>>\<close>: that stretch starts with white space and needs a second character for
  \<^verbatim>\<open>[^>]+\<close> (if it is all white space, \<^verbatim>\<open>\s+\<close> gives its last character back).
\<close>

definition match_tag :: "jsstring \<Rightarrow> nat option" where
  "match_tag s =
     (case s of
        [] \<Rightarrow> None
      | c # s1 \<Rightarrow>
          if c \<noteq> 60 then None
          else
            (let s2 = (case s1 of [] \<Rightarrow> s1 | c1 # r \<Rightarrow> if c1 = 47 then r else s1);
                 w = takeWhile isWordChar s2;
                 s3 = dropWhile isWordChar s2
             in if w = [] then None
                else
                  (case s3 of
                     [] \<Rightarrow> None
                   | x # r \<Rightarrow>
                       if x = 62 then Some (length s - length r)
                       else if isSpace x then
                         (let a = takeWhile (\<lambda>y. y \<noteq> 62) s3; s4 = dropWhile (\<lambda>y. y \<noteq> 62) s3
                          in if 2 \<le> length a \<and> s4 \<noteq> [] then Some (length s - length s4 + 1) else None)
                       else None)))"

text \<open>\<^verbatim>\<open>/\\./\<close>: a backslash and one character that is no line terminator.\<close>

definition match_escape :: "jsstring \<Rightarrow> nat option" where
  "match_escape s =
     (case s of
        c # x # r \<Rightarrow> if c = 92 \<and> \<not> isLineTerminator x then Some 2 else None
      | _ \<Rightarrow> None)"

text \<open>
  \<^verbatim>\<open>html.replace(pattern, repFun)\<close> with a global pattern and \<open>repFun = createProxy\<close>: the
  matches are found from left to right, each search starting where the previous match
  ended; the characters in between are copied, and each match is handed to \<open>createProxy\<close>
  in that order.  (After an empty match the search moves on by one character; the patterns
  above never match the empty string.)
\<close>

function replace_by_proxy ::
  "(jsstring \<Rightarrow> nat option) \<Rightarrow> DomChaos \<Rightarrow> jsstring \<Rightarrow> (jsstring \<times> DomChaos) option" where
  "replace_by_proxy rx s html =
     (case rx html of
        None \<Rightarrow>
          (case html of
             [] \<Rightarrow> Some ([], s)
           | c # cs \<Rightarrow> map_option (\<lambda>(r, s'). (c # r, s')) (replace_by_proxy rx s cs))
      | Some n \<Rightarrow>
          (case createProxy s (take n html) of
             None \<Rightarrow> None
           | Some (mark, s1) \<Rightarrow>
               if 0 < n \<and> n \<le> length html
               then map_option (\<lambda>(r, s'). (mark @ r, s')) (replace_by_proxy rx s1 (drop n html))
               else (case html of
                       [] \<Rightarrow> Some (mark, s1)
                     | c # cs \<Rightarrow> map_option (\<lambda>(r, s'). (mark @ c # r, s')) (replace_by_proxy rx s1 cs))))"
  by pat_completeness auto
termination
  by (relation "measure (\<lambda>(rx, s, html). length html)") auto

declare replace_by_proxy.simps [simp del]

text \<open>
  \<open>digestHTML\<close>: the three replacements in source order, then \<open>Utils.html_entity_decode\<close>.
  \<open>Utils.ts\<close> is not among the source files: the decoder is the argument \<open>decode\<close>, a
  function from strings to strings about which nothing is assumed.
\<close>

definition digestHTML ::
  "(jsstring \<Rightarrow> jsstring) \<Rightarrow> DomChaos \<Rightarrow> jsstring \<Rightarrow> (jsstring \<times> DomChaos) option" where
  "digestHTML decode s html =
     (case replace_by_proxy match_comment s html of
        None \<Rightarrow> None
      | Some (html1, s1) \<Rightarrow>
          (case replace_by_proxy match_tag s1 html1 of
             None \<Rightarrow> None
           | Some (html2, s2) \<Rightarrow>
               (case replace_by_proxy match_escape s2 html2 of
                  None \<Rightarrow> None
                | Some (html3, s3) \<Rightarrow> Some (decode html3, s3))))"


text \<open>
  \<open>replace(pattern, replacementHTML)\<close> hands the pattern to \<^verbatim>\<open>String.prototype.replace\<close>
  of the text, with a callback.  The host first finds the matches, which depend on the
  pattern and the text only: a pattern is modelled by the matches it has in a text, from
  left to right, each given by its start, its length and its captured groups (one match at
  most for a string or a pattern without the global flag).  Then the callback is called
  once per match, in order: it computes the replacement markup from the arguments (the
  match, the groups, the offset and the whole text; a string \<open>replacementHTML\<close> is the
  constant function), digests it and returns the digest, which is inserted as it is (what a
  callback returns is not scanned for \<^verbatim>\<open>$\<close> patterns).  The text is assigned when the host's
  \<open>replace\<close> has returned, so every digest runs against the old text.
\<close>

type_synonym jsmatch = "nat \<times> nat \<times> jsstring list"
type_synonym pattern = "jsstring \<Rightarrow> jsmatch list"
type_synonym replacement = "jsstring \<times> jsstring list \<times> nat \<times> jsstring \<Rightarrow> jsstring"

definition callbackArguments :: "jsstring \<Rightarrow> jsmatch \<Rightarrow> jsstring \<times> jsstring list \<times> nat \<times> jsstring" where
  "callbackArguments str m =
     (case m of (start, len, groups) \<Rightarrow> (take len (drop start str), groups, start, str))"

fun replace_matches ::
  "(jsstring \<Rightarrow> jsstring) \<Rightarrow> DomChaos \<Rightarrow> replacement \<Rightarrow> jsstring \<Rightarrow> nat \<Rightarrow> jsmatch list
     \<Rightarrow> (jsstring \<times> DomChaos) option" where
  "replace_matches decode s f str pos [] = Some (drop pos str, s)"
| "replace_matches decode s f str pos (m # ms) =
     (case digestHTML decode s (f (callbackArguments str m)) of
        None \<Rightarrow> None
      | Some (h, s1) \<Rightarrow>
          (case replace_matches decode s1 f str (fst m + fst (snd m)) ms of
             None \<Rightarrow> None
           | Some (r, s2) \<Rightarrow> Some (take (fst m - pos) (drop pos str) @ h @ r, s2)))"

definition replace :: "(jsstring \<Rightarrow> jsstring) \<Rightarrow> DomChaos \<Rightarrow> pattern \<Rightarrow> replacement \<Rightarrow> DomChaos option" where
  "replace decode s pat f =
     (case replace_matches decode s f (textv s) 0 (pat (textv s)) of
        None \<Rightarrow> None
      | Some (t, s1) \<Rightarrow> Some (s1\<lparr>textv := t\<rparr>))"

text \<open>
  The characters that can start a match of one of the three patterns of \<open>digestHTML\<close>:
  \<^verbatim>\<open><\<close> and the backslash.  Their number in a string bounds the marks its digest asks for.
\<close>

definition triggers :: "jsstring \<Rightarrow> nat" where
  "triggers html = length (filter (\<lambda>c. c = 60 \<or> c = 92) html)"

subsection \<open>Materializing: getHTML\<close>













subsection \<open>Reconciliation: applyTo\<close>

text \<open>
  \<open>applyTo\<close> only looks at the children of \<open>target\<close> and of the scratch element \<open>shadow\<close>.
  A child node is modelled by its object identity and its structure (tag, attributes and
  content, recursively); \<^verbatim>\<open>isEqualNode\<close> compares the structure and ignores the identity.
  The children of \<open>shadow\<close> are what the host's parser built from \<open>getHTML()\<close>; they are
  an argument here.
\<close>

type_synonym 'a cnode = "nat \<times> 'a"

definition isEqualNode :: "'a cnode \<Rightarrow> 'a cnode \<Rightarrow> bool" where
  "isEqualNode a b = (snd a = snd b)"

text \<open>The inner \<^verbatim>\<open>for\<close> loop: the first index \<open>si1 \<ge> si\<close> whose scratch child equals \<open>tnode\<close>.\<close>

function applyTo_inner :: "'a cnode list \<Rightarrow> 'a cnode \<Rightarrow> nat \<Rightarrow> nat option" where
  "applyTo_inner shadow tnode si1 =
     (if si1 < length shadow
      then (if isEqualNode (shadow ! si1) tnode then Some si1
            else applyTo_inner shadow tnode (si1 + 1))
      else None)"
  by pat_completeness auto
termination
  by (relation "measure (\<lambda>(shadow, tnode, si1). length shadow - si1)") auto

declare applyTo_inner.simps [simp del]

text \<open>
  The outer \<^verbatim>\<open>for\<close> loop over the live list \<open>target.childNodes\<close>.  On a match,
  \<^verbatim>\<open>shadow.replaceChild(tnode, snode)\<close> takes \<open>tnode\<close> out of \<open>target\<close> and puts it at
  position \<open>si1\<close> of \<open>shadow\<close>; \<open>ti\<close> is decremented and then incremented by the loop, so it
  stays.  With no match \<open>tnode\<close> stays in \<open>target\<close> and \<open>ti\<close> advances.
\<close>

function applyTo_outer ::
  "'a cnode list \<Rightarrow> 'a cnode list \<Rightarrow> nat \<Rightarrow> nat \<Rightarrow> 'a cnode list \<times> 'a cnode list" where
  "applyTo_outer target shadow ti si =
     (if ti < length target
      then (let tnode = target ! ti in
            case applyTo_inner shadow tnode si of
              Some si1 \<Rightarrow>
                applyTo_outer (take ti target @ drop (ti + 1) target) (shadow[si1 := tnode]) ti (si1 + 1)
            | None \<Rightarrow> applyTo_outer target shadow (ti + 1) si)
      else (target, shadow))"
  by pat_completeness auto
termination
  by (relation "measure (\<lambda>(target, shadow, ti, si). length target - ti)") auto

declare applyTo_outer.simps [simp del]

text \<open>The final \<^verbatim>\<open>while\<close> loop: every child of \<open>shadow\<close> is appended to \<open>target\<close>, first one first.\<close>

fun applyTo_flush :: "'a cnode list \<Rightarrow> 'a cnode list \<Rightarrow> 'a cnode list" where
  "applyTo_flush target [] = target"
| "applyTo_flush target (firstChild # shadow) = applyTo_flush (target @ [firstChild]) shadow"

text \<open>
  \<open>applyTo scratch target\<close>: the children of \<open>target\<close> after the call, given its children
  before and the freshly parsed scratch children.  \<^verbatim>\<open>target.innerHTML = ""\<close> drops what the
  first loop left in \<open>target\<close>.
\<close>

definition applyTo :: "'a cnode list \<Rightarrow> 'a cnode list \<Rightarrow> 'a cnode list" where
  "applyTo scratch target =
     (case applyTo_outer target scratch 0 0 of (target1, shadow1) \<Rightarrow> applyTo_flush [] shadow1)"

text \<open>
  The same matching, stated on the part of each list still to be visited: used to
  reason about the loops.
\<close>

fun greedy :: "'a cnode list \<Rightarrow> 'a cnode list \<Rightarrow> 'a cnode list" where
  "greedy [] ss = ss"
| "greedy (t # ts) ss =
     (case dropWhile (\<lambda>s. \<not> isEqualNode s t) ss of
        [] \<Rightarrow> greedy ts ss
      | s # post \<Rightarrow> takeWhile (\<lambda>s. \<not> isEqualNode s t) ss @ t # greedy ts post)"

section \<open>The host's tree of nodes (DOM)\<close>

text \<open>
  The document is a store of nodes addressed by reference.  A node records its kind, its
  name (upper case for an element), its attributes, its character data and the references
  of its children in order.  The parent of a node is the node whose child list holds it, so
  parent and child links cannot disagree.  \<open>fresh\<close> is the next unused reference: every
  node of the document has a smaller one, and \<^verbatim>\<open>createElement\<close> hands it out.
\<close>

type_synonym ref = nat

datatype nodeKind = ELEMENT_NODE | TEXT_NODE | COMMENT_NODE | DOCUMENT_NODE

record dnode =
  nodeType :: nodeKind
  nodeName :: jsstring
  attributes :: "(jsstring \<times> jsstring) list"
  ndata :: jsstring
  childNodes :: "ref list"

record document =
  heap :: "ref \<Rightarrow> dnode"
  fresh :: ref

datatype error = TypeError | NotFoundError

definition toUpperCase :: "jsstring \<Rightarrow> jsstring" where
  "toUpperCase s = map (\<lambda>c. if 97 \<le> c \<and> c \<le> 122 then c - 32 else c) s"

definition toLowerCase :: "jsstring \<Rightarrow> jsstring" where
  "toLowerCase s = map (\<lambda>c. if 65 \<le> c \<and> c \<le> 90 then c + 32 else c) s"

definition isElement :: "document \<Rightarrow> ref \<Rightarrow> bool" where
  "isElement d r = (nodeType (heap d r) = ELEMENT_NODE)"

definition parentNode :: "document \<Rightarrow> ref \<Rightarrow> ref option" where
  "parentNode d n = find (\<lambda>p. n \<in> set (childNodes (heap d p))) [0..<fresh d]"

definition parentElement :: "document \<Rightarrow> ref \<Rightarrow> ref option" where
  "parentElement d n =
     (case parentNode d n of
        None \<Rightarrow> None
      | Some p \<Rightarrow> if isElement d p then Some p else None)"

definition firstChild :: "document \<Rightarrow> ref \<Rightarrow> ref option" where
  "firstChild d n = (case childNodes (heap d n) of [] \<Rightarrow> None | c # _ \<Rightarrow> Some c)"

text \<open>The nearest preceding sibling that is an element; text and comment nodes are skipped.\<close>

definition previousElementSibling :: "document \<Rightarrow> ref \<Rightarrow> ref option" where
  "previousElementSibling d n =
     (case parentNode d n of
        None \<Rightarrow> None
      | Some p \<Rightarrow> find (isElement d) (rev (takeWhile (\<lambda>c. c \<noteq> n) (childNodes (heap d p)))))"

definition setChildNodes :: "document \<Rightarrow> ref \<Rightarrow> ref list \<Rightarrow> document" where
  "setChildNodes d p cs = d\<lparr>heap := (heap d)(p := (heap d p)\<lparr>childNodes := cs\<rparr>)\<rparr>"

text \<open>Taking a node out of the child list that holds it (the DOM's "remove" step).\<close>

definition detach :: "document \<Rightarrow> ref \<Rightarrow> document" where
  "detach d c = d\<lparr>heap := (\<lambda>p. (heap d p)\<lparr>childNodes := removeAll c (childNodes (heap d p))\<rparr>)\<rparr>"

definition createElement :: "document \<Rightarrow> jsstring \<Rightarrow> ref \<times> document" where
  "createElement d tagName =
     (fresh d,
      d\<lparr>heap := (heap d)(fresh d :=
           \<lparr>nodeType = ELEMENT_NODE, nodeName = toUpperCase tagName, attributes = [],
            ndata = [], childNodes = []\<rparr>),
        fresh := Suc (fresh d)\<rparr>)"

definition appendChild :: "document \<Rightarrow> ref \<Rightarrow> ref \<Rightarrow> document" where
  "appendChild d p c =
     (let d1 = detach d c in setChildNodes d1 p (childNodes (heap d1 p) @ [c]))"

definition insertBefore :: "document \<Rightarrow> ref \<Rightarrow> ref \<Rightarrow> ref \<Rightarrow> error + document" where
  "insertBefore d p new refChild =
     (if refChild \<notin> set (childNodes (heap d p)) then Inl NotFoundError
      else (let d1 = detach d new; cs = childNodes (heap d1 p)
            in Inr (setChildNodes d1 p
                 (takeWhile (\<lambda>c. c \<noteq> refChild) cs @ new # dropWhile (\<lambda>c. c \<noteq> refChild) cs))))"

definition removeChild :: "document \<Rightarrow> ref \<Rightarrow> ref \<Rightarrow> error + document" where
  "removeChild d p c =
     (if c \<notin> set (childNodes (heap d p)) then Inl NotFoundError
      else Inr (setChildNodes d p (removeAll c (childNodes (heap d p)))))"

definition replaceChild :: "document \<Rightarrow> ref \<Rightarrow> ref \<Rightarrow> ref \<Rightarrow> error + document" where
  "replaceChild d p new old =
     (if old \<notin> set (childNodes (heap d p)) then Inl NotFoundError
      else (let d1 = detach d new
            in Inr (setChildNodes d1 p (map (\<lambda>c. if c = old then new else c) (childNodes (heap d1 p))))))"

text \<open>
  \<open>textContent\<close> and the \<open>innerHTML\<close> getter walk the descendants of a node.  The walk is
  bounded by the number of nodes of the document, which bounds the depth of every tree in
  the store.
\<close>

fun descendantText :: "nat \<Rightarrow> (ref \<Rightarrow> dnode) \<Rightarrow> ref \<Rightarrow> jsstring" where
  "descendantText 0 h r = []"
| "descendantText (Suc k) h r =
     (case nodeType (h r) of
        TEXT_NODE \<Rightarrow> ndata (h r)
      | ELEMENT_NODE \<Rightarrow> concat (map (descendantText k h) (childNodes (h r)))
      | COMMENT_NODE \<Rightarrow> []
      | DOCUMENT_NODE \<Rightarrow> [])"

definition textContent :: "document \<Rightarrow> ref \<Rightarrow> jsstring" where
  "textContent d n =
     (case nodeType (heap d n) of
        ELEMENT_NODE \<Rightarrow> descendantText (Suc (fresh d)) (heap d) n
      | TEXT_NODE \<Rightarrow> ndata (heap d n)
      | COMMENT_NODE \<Rightarrow> ndata (heap d n)
      | DOCUMENT_NODE \<Rightarrow> [])"

text \<open>The HTML serialisation of text, of an attribute value, and of the children of a node.\<close>

fun escapeText :: "jsstring \<Rightarrow> jsstring" where
  "escapeText [] = []"
| "escapeText (c # cs) =
     (if c = 38 then js ''&amp;'' else if c = 160 then js ''&nbsp;''
      else if c = 60 then js ''&lt;'' else if c = 62 then js ''&gt;'' else [c]) @ escapeText cs"

fun escapeAttr :: "jsstring \<Rightarrow> jsstring" where
  "escapeAttr [] = []"
| "escapeAttr (c # cs) =
     (if c = 38 then js ''&amp;'' else if c = 160 then js ''&nbsp;''
      else if c = 34 then js ''&quot;'' else [c]) @ escapeAttr cs"

text \<open>
  The elements that are serialised without content and end tag, and the elements whose
  text children are written as they are, without escaping (\<open>noscript\<close> is among them where
  scripting is enabled, as it is where this code runs).
\<close>

definition voidElements :: "jsstring list" where
  "voidElements = map js [''AREA'', ''BASE'', ''BASEFONT'', ''BGSOUND'', ''BR'', ''COL'', ''EMBED'',
     ''FRAME'', ''HR'', ''IMG'', ''INPUT'', ''KEYGEN'', ''LINK'', ''META'', ''PARAM'', ''SOURCE'',
     ''TRACK'', ''WBR'']"

definition rawTextElements :: "jsstring list" where
  "rawTextElements = map js [''STYLE'', ''SCRIPT'', ''XMP'', ''IFRAME'', ''NOEMBED'', ''NOFRAMES'',
     ''PLAINTEXT'', ''NOSCRIPT'']"

text \<open>
  \<open>serialize k h raw r\<close>: the markup of node \<open>r\<close>; \<open>raw\<close> tells whether its parent is one
  of the \<open>rawTextElements\<close>.
\<close>

fun serialize :: "nat \<Rightarrow> (ref \<Rightarrow> dnode) \<Rightarrow> bool \<Rightarrow> ref \<Rightarrow> jsstring" where
  "serialize 0 h raw r = []"
| "serialize (Suc k) h raw r =
     (case nodeType (h r) of
        TEXT_NODE \<Rightarrow> if raw then ndata (h r) else escapeText (ndata (h r))
      | COMMENT_NODE \<Rightarrow> js ''<!--'' @ ndata (h r) @ js ''-->''
      | DOCUMENT_NODE \<Rightarrow> []
      | ELEMENT_NODE \<Rightarrow>
          js ''<'' @ toLowerCase (nodeName (h r))
          @ concat (map (\<lambda>(a, v). js '' '' @ a @ js ''=\"'' @ escapeAttr v @ js ''\"'') (attributes (h r)))
          @ js ''>''
          @ (if nodeName (h r) \<in> set voidElements then []
             else concat (map (serialize k h (nodeName (h r) \<in> set rawTextElements)) (childNodes (h r)))
                  @ js ''</'' @ toLowerCase (nodeName (h r)) @ js ''>''))"

definition get_innerHTML :: "document \<Rightarrow> ref \<Rightarrow> jsstring" where
  "get_innerHTML d n =
     concat (map (serialize (fresh d) (heap d) (nodeName (heap d n) \<in> set rawTextElements))
                 (childNodes (heap d n)))"

text \<open>
  The \<open>innerHTML\<close> setter parses markup with the host's HTML parser.  The parser is a
  parameter: it maps a markup string to the trees it stands for.  The setter drops the old
  children and creates the nodes of these trees, each with a new reference.
\<close>

datatype tree =
  TElement jsstring "(jsstring \<times> jsstring) list" "tree list"
| TText jsstring
| TComment jsstring

type_synonym parser = "jsstring \<Rightarrow> tree list"

definition allocate :: "document \<Rightarrow> dnode \<Rightarrow> ref \<times> document" where
  "allocate d nd = (fresh d, d\<lparr>heap := (heap d)(fresh d := nd), fresh := Suc (fresh d)\<rparr>)"

fun build :: "tree \<Rightarrow> document \<Rightarrow> ref \<times> document"
  and build_list :: "tree list \<Rightarrow> document \<Rightarrow> ref list \<times> document" where
  "build (TText s) d =
     allocate d \<lparr>nodeType = TEXT_NODE, nodeName = js ''#text'', attributes = [], ndata = s, childNodes = []\<rparr>"
| "build (TComment s) d =
     allocate d \<lparr>nodeType = COMMENT_NODE, nodeName = js ''#comment'', attributes = [], ndata = s, childNodes = []\<rparr>"
| "build (TElement nm attrs ts) d =
     (case allocate d \<lparr>nodeType = ELEMENT_NODE, nodeName = toUpperCase nm, attributes = attrs,
                       ndata = [], childNodes = []\<rparr> of
        (r, d1) \<Rightarrow> (case build_list ts d1 of (cs, d2) \<Rightarrow> (r, setChildNodes d2 r cs)))"
| "build_list [] d = ([], d)"
| "build_list (t # ts) d =
     (case build t d of (r, d1) \<Rightarrow> (case build_list ts d1 of (rs, d2) \<Rightarrow> (r # rs, d2)))"

definition set_innerHTML :: "parser \<Rightarrow> document \<Rightarrow> ref \<Rightarrow> jsstring \<Rightarrow> document" where
  "set_innerHTML parseHTML d n markup =
     (case build_list (parseHTML markup) (setChildNodes d n []) of
        (cs, d1) \<Rightarrow> setChildNodes d1 n cs)"

section \<open>Block elevation (Renderer/BlockRenderer.ts)\<close>

subsection \<open>The feature marks\<close>

text \<open>
  The five regular expressions.  Each is anchored with \<^verbatim>\<open>^\<close> and has no flag, so it can
  only match at the start of the input.  \<open>exec\<close> returns the match array: the whole match,
  then capture group 1 where the code reads it or the pattern has one.

  \<^item> \<open>ULMark\<close> is \<^verbatim>\<open>/^\s*[\*\+\-]\s+/\<close>
  \<^item> \<open>OLMark\<close> is \<^verbatim>\<open>/^\s*\d+\.\s+/\<close>
  \<^item> \<open>BLOCKQUOTEMark\<close> is \<^verbatim>\<open>/^(\>|&gt;)\s*/\<close>
  \<^item> \<open>HRMark\<close> is \<^verbatim>\<open>/^\s*([\-\=\*])(\s*\1){2,}\s*$/\<close>
  \<^item> \<open>HeaderTextMark\<close> is \<^verbatim>\<open>/^(#+)\s+/\<close>

  The classes that follow one another in these patterns are disjoint (a bullet, a digit,
  a dot, a hash is not white space), so a greedy run can only be the maximal one and
  backtracking never finds a second way to match.
\<close>

datatype featureMarkRx = ULMark | OLMark | BLOCKQUOTEMark | HRMark | HeaderTextMark

definition exec_UL :: "jsstring \<Rightarrow> jsstring list option" where
  "exec_UL s =
     (let lead = takeWhile isSpace s in
      case dropWhile isSpace s of
        [] \<Rightarrow> None
      | c # rest \<Rightarrow>
          if c \<in> {42, 43, 45} \<and> takeWhile isSpace rest \<noteq> []
          then Some [lead @ c # takeWhile isSpace rest] else None)"

definition exec_OL :: "jsstring \<Rightarrow> jsstring list option" where
  "exec_OL s =
     (let lead = takeWhile isSpace s; s1 = dropWhile isSpace s;
          digits = takeWhile isDigit s1 in
      case dropWhile isDigit s1 of
        [] \<Rightarrow> None
      | c # rest \<Rightarrow>
          if digits \<noteq> [] \<and> c = 46 \<and> takeWhile isSpace rest \<noteq> []
          then Some [lead @ digits @ c # takeWhile isSpace rest] else None)"

definition exec_BLOCKQUOTE :: "jsstring \<Rightarrow> jsstring list option" where
  "exec_BLOCKQUOTE s =
     (if prefix (js ''>'') s then Some [js ''>'' @ takeWhile isSpace (drop 1 s), js ''>'']
      else if prefix (js ''&gt;'') s then Some [js ''&gt;'' @ takeWhile isSpace (drop 4 s), js ''&gt;'']
      else None)"

text \<open>
  After the first rule character \<open>c\<close>: the rest must consist of white space and further
  \<open>c\<close>s only; the result is the number of further \<open>c\<close>s.
\<close>

fun hr_tail :: "jschar \<Rightarrow> jsstring \<Rightarrow> nat option" where
  "hr_tail c [] = Some 0"
| "hr_tail c (x # xs) =
     (if isSpace x then hr_tail c xs
      else if x = c then map_option Suc (hr_tail c xs)
      else None)"

definition exec_HR :: "jsstring \<Rightarrow> jsstring list option" where
  "exec_HR s =
     (case dropWhile isSpace s of
        [] \<Rightarrow> None
      | c # rest \<Rightarrow>
          if c \<in> {45, 61, 42} then
            (case hr_tail c rest of
               None \<Rightarrow> None
             | Some n \<Rightarrow> if 2 \<le> n then Some [s, [c]] else None)
          else None)"

definition exec_HeaderText :: "jsstring \<Rightarrow> jsstring list option" where
  "exec_HeaderText s =
     (let hashes = takeWhile (\<lambda>c. c = 35) s; rest = dropWhile (\<lambda>c. c = 35) s in
      if hashes \<noteq> [] \<and> takeWhile isSpace rest \<noteq> []
      then Some [hashes @ takeWhile isSpace rest, hashes] else None)"

fun exec :: "featureMarkRx \<Rightarrow> jsstring \<Rightarrow> jsstring list option" where
  "exec ULMark s = exec_UL s"
| "exec OLMark s = exec_OL s"
| "exec BLOCKQUOTEMark s = exec_BLOCKQUOTE s"
| "exec HRMark s = exec_HR s"
| "exec HeaderTextMark s = exec_HeaderText s"

text \<open>\<^verbatim>\<open>s.replace(featureMark, '')\<close>: the match, if any, starts at index 0 and is cut off.\<close>

definition replace_featureMark :: "featureMarkRx \<Rightarrow> jsstring \<Rightarrow> jsstring" where
  "replace_featureMark rx s =
     (case exec rx s of
        None \<Rightarrow> s
      | Some m \<Rightarrow> (case m of [] \<Rightarrow> s | whole # groups \<Rightarrow> drop (length whole) s))"

text \<open>\<^verbatim>\<open>s.replace(/&nbsp;/g, String.fromCharCode(160))\<close>\<close>

function replace_nbsp :: "jsstring \<Rightarrow> jsstring" where
  "replace_nbsp s =
     (case s of
        [] \<Rightarrow> []
      | c # cs \<Rightarrow> if prefix (js ''&nbsp;'') s then 160 # replace_nbsp (drop 6 s) else c # replace_nbsp cs)"
  by pat_completeness auto
termination
  by (relation "measure length") auto

declare replace_nbsp.simps [simp del]

subsection \<open>Container descriptors\<close>

text \<open>
  \<open>elevateMethod\<close> says which \<open>Elevate\<close> method an instance has: the one of the base class,
  or the override of class \<open>HR\<close> or of class \<open>HeaderText\<close>.  A \<open>null\<close> name is \<open>None\<close>.
\<close>

datatype elevateMethod = BaseElevate | HRElevate | HeaderTextElevate

record BlockRendererContainer =
  name :: jsstring
  featureMark :: featureMarkRx
  childNodeName :: "jsstring option"
  parentNodeName :: "jsstring option"
  isTypable :: bool
  removeFeatureMark :: bool
  elevateMethod :: elevateMethod

definition UL :: BlockRendererContainer where
  "UL = \<lparr>name = js ''unordered list'', featureMark = ULMark, childNodeName = Some (js ''LI''),
         parentNodeName = Some (js ''UL''), isTypable = True, removeFeatureMark = True,
         elevateMethod = BaseElevate\<rparr>"

definition OL :: BlockRendererContainer where
  "OL = \<lparr>name = js ''ordered list'', featureMark = OLMark, childNodeName = Some (js ''LI''),
         parentNodeName = Some (js ''OL''), isTypable = True, removeFeatureMark = True,
         elevateMethod = BaseElevate\<rparr>"

definition BLOCKQUOTE :: BlockRendererContainer where
  "BLOCKQUOTE = \<lparr>name = js ''blockquote'', featureMark = BLOCKQUOTEMark, childNodeName = None,
         parentNodeName = Some (js ''BLOCKQUOTE''), isTypable = True, removeFeatureMark = True,
         elevateMethod = BaseElevate\<rparr>"

definition HR :: BlockRendererContainer where
  "HR = \<lparr>name = js ''hr'', featureMark = HRMark, childNodeName = None,
         parentNodeName = None, isTypable = False, removeFeatureMark = True,
         elevateMethod = HRElevate\<rparr>"

definition HeaderText :: BlockRendererContainer where
  "HeaderText = \<lparr>name = js ''header text'', featureMark = HeaderTextMark, childNodeName = None,
         parentNodeName = None, isTypable = True, removeFeatureMark = True,
         elevateMethod = HeaderTextElevate\<rparr>"

definition markdownContainers :: "BlockRendererContainer list" where
  "markdownContainers = [BLOCKQUOTE, HeaderText, HR, OL, UL]"

text \<open>JavaScript truthiness of a string or \<open>null\<close>: \<open>null\<close> and the empty string are falsy.\<close>

definition truthy :: "jsstring option \<Rightarrow> bool" where
  "truthy x = (case x of None \<Rightarrow> False | Some s \<Rightarrow> s \<noteq> [])"

subsection \<open>Elevation\<close>

text \<open>
  \<open>prepareElevate\<close>.  A \<open>null\<close> node and a failed match return \<open>null\<close> before anything is
  written.  Otherwise the feature mark is cut from the markup of the node, which is
  parsed again.
\<close>

definition prepareElevate ::
  "parser \<Rightarrow> BlockRendererContainer \<Rightarrow> document \<Rightarrow> ref option \<Rightarrow> jsstring list option \<times> document" where
  "prepareElevate parseHTML c d node =
     (case node of
        None \<Rightarrow> (None, d)
      | Some n \<Rightarrow>
          (case exec (featureMark c) (textContent d n) of
             None \<Rightarrow> (None, d)
           | Some matchResult \<Rightarrow>
               if removeFeatureMark c
               then (Some matchResult,
                     set_innerHTML parseHTML d n
                       (replace_featureMark (featureMark c) (replace_nbsp (get_innerHTML d n))))
               else (Some matchResult, d)))"

text \<open>
  \<^verbatim>\<open>while (node.firstChild) {child.appendChild(node.firstChild)}\<close>.  Nothing is assumed
  about its end: not returning is \<open>None\<close>.
\<close>

partial_function (option) moveChildren :: "document \<Rightarrow> ref \<Rightarrow> ref \<Rightarrow> document option" where
  "moveChildren d node child =
     (case firstChild d node of
        None \<Rightarrow> Some d
      | Some c \<Rightarrow> moveChildren (appendChild d child c) node child)"

text \<open>
  The result of an elevation.  The outer \<open>option\<close> is \<open>None\<close> when the call does not
  return; \<open>Inl\<close> is a raised exception; \<open>Inr (None, d)\<close> is the return value \<open>null\<close>.
\<close>

record elevated =
  parent :: "ref option"
  child :: ref

type_synonym 'a outcome = "(error + 'a \<times> document) option"

text \<open>
  Lines 49 to 52 of \<open>Elevate\<close>: the new child takes the children and the place of the node.
  Reading a property of \<open>null\<close> raises \<open>TypeError\<close>.
\<close>

definition renameNode :: "document \<Rightarrow> ref \<Rightarrow> jsstring \<Rightarrow> ref outcome" where
  "renameNode d node tagName =
     (case createElement d tagName of
        (ch, d1) \<Rightarrow>
          (case moveChildren d1 node ch of
             None \<Rightarrow> None
           | Some d2 \<Rightarrow>
               (case parentNode d2 node of
                  None \<Rightarrow> Some (Inl TypeError)
                | Some p \<Rightarrow>
                    (case insertBefore d2 p ch node of
                       Inl e \<Rightarrow> Some (Inl e)
                     | Inr d3 \<Rightarrow>
                         (case parentElement d3 node of
                            None \<Rightarrow> Some (Inl TypeError)
                          | Some pe \<Rightarrow>
                              (case removeChild d3 pe node of
                                 Inl e \<Rightarrow> Some (Inl e)
                               | Inr d4 \<Rightarrow> Some (Inr (ch, d4))))))))"

text \<open>
  Modelled from the spec: \<open>Utils.wrap\<close> is not among the source files.  The spec: "create a
  new node of parentTag and wrap the child with it at its current tree position (replacing
  the child's position with the wrapper, then inserting the child inside)".
\<close>

definition wrap :: "document \<Rightarrow> ref \<Rightarrow> ref \<Rightarrow> error + document" where
  "wrap d wrapper node =
     (case parentNode d node of
        None \<Rightarrow> Inl TypeError
      | Some p \<Rightarrow>
          (case replaceChild d p wrapper node of
             Inl e \<Rightarrow> Inl e
           | Inr d1 \<Rightarrow> Inr (appendChild d1 wrapper node)))"

text \<open>
  Lines 55 to 68 of \<open>Elevate\<close>: no parent when \<open>parentNodeName\<close> is falsy; the preceding
  element sibling when it has that name; a new wrapper otherwise.
\<close>

definition mergeTarget :: "document \<Rightarrow> ref \<Rightarrow> jsstring \<Rightarrow> ref option" where
  "mergeTarget d ch pn =
     (case previousElementSibling d ch of
        None \<Rightarrow> None
      | Some sibling \<Rightarrow> if nodeName (heap d sibling) = pn then Some sibling else None)"

definition wrapOrMerge :: "document \<Rightarrow> ref \<Rightarrow> jsstring option \<Rightarrow> error + ref option \<times> document" where
  "wrapOrMerge d ch pName =
     (if \<not> truthy pName then Inr (None, d)
      else
        (let pn = (case pName of None \<Rightarrow> [] | Some s \<Rightarrow> s) in
         case mergeTarget d ch pn of
           Some sibling \<Rightarrow> Inr (Some sibling, appendChild d sibling ch)
         | None \<Rightarrow>
             (case createElement d pn of
                (w, d1) \<Rightarrow>
                  (case wrap d1 w ch of
                     Inl e \<Rightarrow> Inl e
                   | Inr d2 \<Rightarrow> Inr (Some w, d2)))))"

definition Elevate :: "parser \<Rightarrow> BlockRendererContainer \<Rightarrow> document \<Rightarrow> ref option \<Rightarrow> elevated option outcome" where
  "Elevate parseHTML c d node =
     (case prepareElevate parseHTML c d node of
        (None, d0) \<Rightarrow> Some (Inr (None, d0))
      | (Some matchResult, d0) \<Rightarrow>
          (case node of
             None \<Rightarrow> Some (Inr (None, d0))
           | Some n \<Rightarrow>
               (case (if \<not> truthy (childNodeName c) then Some (Inr (n, d0))
                      else renameNode d0 n (case childNodeName c of None \<Rightarrow> [] | Some s \<Rightarrow> s)) of
                  None \<Rightarrow> None
                | Some (Inl e) \<Rightarrow> Some (Inl e)
                | Some (Inr (ch, d1)) \<Rightarrow>
                    (case wrapOrMerge d1 ch (parentNodeName c) of
                       Inl e \<Rightarrow> Some (Inl e)
                     | Inr (par, d2) \<Rightarrow> Some (Inr (Some \<lparr>parent = par, child = ch\<rparr>, d2))))))"

text \<open>\<open>HR.Elevate\<close>: the override of class \<open>HR\<close>.\<close>

definition HR_Elevate :: "parser \<Rightarrow> BlockRendererContainer \<Rightarrow> document \<Rightarrow> ref option \<Rightarrow> elevated option outcome" where
  "HR_Elevate parseHTML c d node =
     (case prepareElevate parseHTML c d node of
        (None, d0) \<Rightarrow> Some (Inr (None, d0))
      | (Some matchResult, d0) \<Rightarrow>
          (case node of
             None \<Rightarrow> Some (Inr (None, d0))
           | Some n \<Rightarrow>
               (case createElement d0 (js ''hr'') of
                  (ch, d1) \<Rightarrow>
                    (case parentElement d1 n of
                       None \<Rightarrow> Some (Inl TypeError)
                     | Some p \<Rightarrow>
                         (case insertBefore d1 p ch n of
                            Inl e \<Rightarrow> Some (Inl e)
                          | Inr d2 \<Rightarrow>
                              (case parentElement d2 n of
                                 None \<Rightarrow> Some (Inl TypeError)
                               | Some p2 \<Rightarrow>
                                   (case removeChild d2 p2 n of
                                      Inl e \<Rightarrow> Some (Inl e)
                                    | Inr d3 \<Rightarrow> Some (Inr (Some \<lparr>parent = None, child = ch\<rparr>, d3)))))))))"

text \<open>Decimal digits of a number: \<^verbatim>\<open>"H" + match[1].length\<close>.\<close>

function toString10 :: "nat \<Rightarrow> jsstring" where
  "toString10 n = (if n < 10 then [48 + n] else toString10 (n div 10) @ [48 + n mod 10])"
  by pat_completeness auto
termination
  by (relation "measure id") auto

declare toString10.simps [simp del]

text \<open>\<open>HeaderText.Elevate\<close>: the override of class \<open>HeaderText\<close>.\<close>

definition HeaderText_Elevate :: "parser \<Rightarrow> BlockRendererContainer \<Rightarrow> document \<Rightarrow> ref option \<Rightarrow> elevated option outcome" where
  "HeaderText_Elevate parseHTML c d node =
     (case prepareElevate parseHTML c d node of
        (None, d0) \<Rightarrow> Some (Inr (None, d0))
      | (Some matchResult, d0) \<Rightarrow>
          (case node of
             None \<Rightarrow> Some (Inr (None, d0))
           | Some n \<Rightarrow>
               (case renameNode d0 n (js ''H'' @ toString10 (length (matchResult ! 1))) of
                  None \<Rightarrow> None
                | Some (Inl e) \<Rightarrow> Some (Inl e)
                | Some (Inr (ch, d1)) \<Rightarrow> Some (Inr (Some \<lparr>parent = None, child = ch\<rparr>, d1)))))"

text \<open>The method an instance answers \<open>Elevate\<close> with.\<close>

definition container_Elevate :: "parser \<Rightarrow> BlockRendererContainer \<Rightarrow> document \<Rightarrow> ref option \<Rightarrow> elevated option outcome" where
  "container_Elevate parseHTML c d node =
     (case elevateMethod c of
        BaseElevate \<Rightarrow> Elevate parseHTML c d node
      | HRElevate \<Rightarrow> HR_Elevate parseHTML c d node
      | HeaderTextElevate \<Rightarrow> HeaderText_Elevate parseHTML c d node)"

text \<open>
  \<open>BlockRenderer.Elevate\<close>: the loop over \<open>this.containers\<close>, first index first.  The result
  carries the container as \<open>containerType\<close>.
\<close>

fun BlockRenderer_Elevate ::
  "parser \<Rightarrow> BlockRendererContainer list \<Rightarrow> document \<Rightarrow> ref option
     \<Rightarrow> (BlockRendererContainer \<times> elevated) option outcome" where
  "BlockRenderer_Elevate parseHTML [] d node = Some (Inr (None, d))"
| "BlockRenderer_Elevate parseHTML (container # containers) d node =
     (case container_Elevate parseHTML container d node of
        None \<Rightarrow> None
      | Some (Inl e) \<Rightarrow> Some (Inl e)
      | Some (Inr (Some rtn, d1)) \<Rightarrow> Some (Inr (Some (container, rtn), d1))
      | Some (Inr (None, d1)) \<Rightarrow> BlockRenderer_Elevate parseHTML containers d1 node)"

text \<open>\<open>makeMarkdownRenderer\<close>: the \<open>containers\<close> of the renderer it returns.\<close>

definition makeMarkdownRenderer :: "BlockRendererContainer list" where
  "makeMarkdownRenderer = markdownContainers @ []"

subsection \<open>Example documents\<close>

text \<open>
  Documents and a parser for the examples.  \<open>parseHTML_sample\<close> returns what an HTML
  parser returns on the markup strings of the examples: character data free of \<open><\<close> and
  \<open>&\<close> is one text node (no node when empty), and \<^verbatim>\<open><b># x</b>\<close> is a \<open>b\<close> element
  around a text node.  It is not asked about any other markup.
\<close>

definition parseHTML_sample :: parser where
  "parseHTML_sample markup =
     (if 60 \<notin> set markup \<and> 38 \<notin> set markup then (if markup = [] then [] else [TText markup])
      else if markup = js ''<b># x</b>'' then [TElement (js ''b'') [] [TText (js ''# x'')]]
      else [])"

definition noNode :: dnode where
  "noNode = \<lparr>nodeType = DOCUMENT_NODE, nodeName = [], attributes = [], ndata = [], childNodes = []\<rparr>"

definition elementNode :: "string \<Rightarrow> ref list \<Rightarrow> dnode" where
  "elementNode nm cs =
     \<lparr>nodeType = ELEMENT_NODE, nodeName = js nm, attributes = [], ndata = [], childNodes = cs\<rparr>"

definition textNode :: "string \<Rightarrow> dnode" where
  "textNode s =
     \<lparr>nodeType = TEXT_NODE, nodeName = js ''#text'', attributes = [], ndata = js s, childNodes = []\<rparr>"

text \<open>\<^verbatim>\<open><div><p>TEXT</p></div>\<close>: the \<open>div\<close> is node 0, the block \<open>p\<close> is node 1.\<close>

definition doc_block :: "string \<Rightarrow> document" where
  "doc_block s =
     \<lparr>heap = (\<lambda>_. noNode)(0 := elementNode ''DIV'' [1], 1 := elementNode ''P'' [2], 2 := textNode s),
      fresh = 3\<rparr>"

text \<open>\<^verbatim>\<open><div><p><b># x</b></p></div>\<close>: the marker is inside inline markup.\<close>

definition doc_bold_header :: document where
  "doc_bold_header =
     \<lparr>heap = (\<lambda>_. noNode)(0 := elementNode ''DIV'' [1], 1 := elementNode ''P'' [2],
                2 := elementNode ''B'' [3], 3 := textNode ''# x''),
      fresh = 4\<rparr>"

text \<open>
  \<^verbatim>\<open><div><blockquote><p>quoted</p></blockquote>GAP<p>&gt; more</p></div>\<close>, where \<open>GAP\<close>
  is nothing in \<open>doc_quote\<close> and a text node holding a line break in \<open>doc_quote_gap\<close>.
\<close>

definition doc_quote :: document where
  "doc_quote =
     \<lparr>heap = (\<lambda>_. noNode)(0 := elementNode ''DIV'' [1, 4], 1 := elementNode ''BLOCKQUOTE'' [2],
                2 := elementNode ''P'' [3], 3 := textNode ''quoted'',
                4 := elementNode ''P'' [5], 5 := textNode ''> more''),
      fresh = 6\<rparr>"

definition doc_quote_gap :: document where
  "doc_quote_gap =
     \<lparr>heap = (\<lambda>_. noNode)(0 := elementNode ''DIV'' [1, 6, 4], 1 := elementNode ''BLOCKQUOTE'' [2],
                2 := elementNode ''P'' [3], 3 := textNode ''quoted'',
                4 := elementNode ''P'' [5], 5 := textNode ''> more'',
                6 := \<lparr>nodeType = TEXT_NODE, nodeName = js ''#text'', attributes = [], ndata = [10], childNodes = []\<rparr>),
      fresh = 7\<rparr>"

text \<open>
  \<^verbatim>\<open><p>---</p>\<close> that is not in any tree, as \<^verbatim>\<open>document.createElement("p")\<close> returns it:
  the \<open>p\<close> is node 0.  And \<^verbatim>\<open><style>a > b</style>\<close>.
\<close>

definition doc_detached_rule :: document where
  "doc_detached_rule =
     \<lparr>heap = (\<lambda>_. noNode)(0 := elementNode ''P'' [1], 1 := textNode ''---''), fresh = 2\<rparr>"

definition doc_style :: document where
  "doc_style =
     \<lparr>heap = (\<lambda>_. noNode)(0 := elementNode ''STYLE'' [1], 1 := textNode ''a > b''), fresh = 2\<rparr>"

text \<open>
  A pattern and a replacement for the examples: the string pattern \<^verbatim>\<open>"x"\<close> (its first
  occurrence is the one match) and the callback that puts the match between \<^verbatim>\<open><i>\<close> and
  \<^verbatim>\<open></i>\<close>.
\<close>

definition sample_pattern :: pattern where
  "sample_pattern t = (let i = indexOf t (js ''x'') in if i = - 1 then [] else [(nat i, 1, [])])"

definition sample_replacement :: replacement where
  "sample_replacement args = js ''<i>'' @ fst args @ js ''</i>''"

lemmas doc_eval = doc_bold_header_def doc_quote_def doc_quote_gap_def doc_detached_rule_def
  doc_style_def

section \<open>Strings: basic facts\<close>

lemma indexOf_sublist: "indexOf t pat \<noteq> - 1 \<longleftrightarrow> sublist pat t"
proof (induction t)
  case Nil
  then show ?case by simp
next
  case (Cons c cs)
  have nonneg: "indexOf u pat \<noteq> - 1 \<Longrightarrow> 0 \<le> indexOf u pat" for u
    by (induction u) (auto simp: Let_def split: if_splits)
  show ?case
  proof (cases "prefix pat (c # cs)")
    case True
    then show ?thesis by (simp add: sublist_Cons_right)
  next
    case False
    with Cons nonneg[of cs] show ?thesis
      by (auto simp: sublist_Cons_right Let_def)
  qed
qed

lemma indexOf_none: "indexOf t pat = - 1 \<longleftrightarrow> \<not> sublist pat t"
  using indexOf_sublist[of t pat] by blast

lemma digit36_inj: "a < 36 \<Longrightarrow> b < 36 \<Longrightarrow> digit36 a = digit36 b \<Longrightarrow> a = b"
  by (auto simp: digit36_def split: if_splits)

lemma toString36_nonempty: "toString36 n \<noteq> []"
  by (subst toString36.simps) simp

lemma toString36_small: "n < 36 \<Longrightarrow> toString36 n = [digit36 n]"
  by (subst toString36.simps) simp

lemma toString36_large:
  "\<not> n < 36 \<Longrightarrow> toString36 n = toString36 (n div 36) @ [digit36 (n mod 36)]"
  by (subst toString36.simps) simp

lemma toString36_inj: "toString36 a = toString36 b \<Longrightarrow> a = b"
proof (induction a arbitrary: b rule: toString36.induct)
  case (1 n)
  show ?case
  proof (cases "n < 36")
    case True
    note n = this
    show ?thesis
    proof (cases "b < 36")
      case True
      with n "1.prems" show ?thesis
        by (simp add: toString36_small digit36_inj)
    next
      case False
      with n "1.prems" toString36_nonempty[of "b div 36"] show ?thesis
        by (simp add: toString36_small toString36_large)
    qed
  next
    case False
    note n = this
    show ?thesis
    proof (cases "b < 36")
      case True
      with n "1.prems" toString36_nonempty[of "n div 36"] show ?thesis
        by (simp add: toString36_small toString36_large)
    next
      case False
      with n "1.prems" have eq: "toString36 (n div 36) = toString36 (b div 36)"
        and d: "digit36 (n mod 36) = digit36 (b mod 36)"
        by (simp_all add: toString36_large)
      from "1.IH"[OF n eq] have "n div 36 = b div 36" .
      moreover from d have "n mod 36 = b mod 36"
        by (rule digit36_inj[rotated 2]) simp_all
      ultimately show ?thesis
        by (metis div_mult_mod_eq)
    qed
  qed
qed

lemma mark_of_inj: "mark_of a = mark_of b \<Longrightarrow> a = b"
  by (simp add: mark_of_def toString36_inj)

lemma finite_marks_in: "finite {k. sublist (mark_of k) t}"
proof -
  have "finite (mark_of -` set (sublists t))"
    by (rule finite_vimageI) (auto simp: inj_on_def dest: mark_of_inj)
  then show ?thesis
    by (simp add: vimage_def)
qed

lemma toString36_chars: "\<forall>c\<in>set (toString36 n). (48 \<le> c \<and> c \<le> 57) \<or> (97 \<le> c \<and> c \<le> 122)"
proof (induction n rule: toString36.induct)
  case (1 n)
  have d: "(48 \<le> digit36 m \<and> digit36 m \<le> 57) \<or> (97 \<le> digit36 m \<and> digit36 m \<le> 122)" if "m < 36" for m
    using that by (auto simp: digit36_def)
  show ?case
  proof (cases "n < 36")
    case True
    then show ?thesis using d[of n] by (simp add: toString36_small)
  next
    case False
    have "n mod 36 < 36" by simp
    from d[OF this] False "1.IH" show ?thesis by (simp add: toString36_large)
  qed
qed

lemma mark_of_chars:
  "\<forall>c\<in>set (mark_of k). c = 0xfffc \<or> c = 0xfff9 \<or> c = 0xfffb \<or> (48 \<le> c \<and> c \<le> 57) \<or> (97 \<le> c \<and> c \<le> 122)"
  using toString36_chars[of k] by (auto simp: mark_of_def markPrefix_def markSuffix_def)

lemma mark_of_clean: "list_all (\<lambda>c. c \<noteq> 60 \<and> c \<noteq> 62 \<and> c \<noteq> 38 \<and> c \<noteq> 92) (mark_of k)"
  using mark_of_chars[of k] by (auto simp: list_all_iff)

lemma mark_of_hd: "mark_of k \<noteq> []" "hd (mark_of k) = 0xfffc"
  by (simp_all add: mark_of_def markPrefix_def)


lemma mark_of_prefix_inj:
  assumes "prefix (mark_of a) (mark_of b)"
  shows "a = b"
proof -
  have S: "0xfffb \<notin> set (toString36 b)"
    using toString36_chars[of b] by auto
  from assms have "prefix (toString36 a @ [0xfffb]) (toString36 b @ [0xfffb])"
    by (simp add: mark_of_def markSuffix_def)
  then have "toString36 a @ [0xfffb] = toString36 b @ [0xfffb]
             \<or> prefix (toString36 a @ [0xfffb]) (toString36 b)"
    by (simp add: prefix_snoc)
  then show ?thesis
  proof
    assume "toString36 a @ [0xfffb] = toString36 b @ [0xfffb]"
    then show ?thesis by (simp add: toString36_inj)
  next
    assume "prefix (toString36 a @ [0xfffb]) (toString36 b)"
    then have "0xfffb \<in> set (toString36 b)" by (auto simp: prefix_def)
    with S show ?thesis by simp
  qed
qed

lemma sublist_at: "sublist m t \<Longrightarrow> \<exists>i. prefix m (drop i t)"
proof -
  assume "sublist m t"
  then obtain ps ss where "t = ps @ m @ ss" by (auto simp: sublist_def)
  then have "drop (length ps) t = m @ ss" by simp
  then have "prefix m (drop (length ps) t)" by simp
  then show ?thesis ..
qed

text \<open>A text holds at most as many different marks as it has characters.\<close>

lemma marks_in_text_card: "card {k. sublist (mark_of k) t} \<le> length t"
proof -
  let ?A = "{k. sublist (mark_of k) t}"
  define f where "f k = (LEAST i. prefix (mark_of k) (drop i t))" for k
  have P: "prefix (mark_of k) (drop (f k) t)" if "k \<in> ?A" for k
  proof -
    from that have "\<exists>i. prefix (mark_of k) (drop i t)" by (simp add: sublist_at)
    then show ?thesis unfolding f_def by (rule LeastI_ex)
  qed
  have lt: "f k < length t" if "k \<in> ?A" for k
  proof (rule ccontr)
    assume "\<not> f k < length t"
    then have "drop (f k) t = []" by simp
    with P[OF that] mark_of_hd(1)[of k] show False by simp
  qed
  have "inj_on f ?A"
  proof (rule inj_onI)
    fix a b assume a: "a \<in> ?A" and b: "b \<in> ?A" and e: "f a = f b"
    from P[OF a] P[OF b] e have "prefix (mark_of a) (mark_of b) \<or> prefix (mark_of b) (mark_of a)"
      by (metis prefix_same_cases)
    then show "a = b" using mark_of_prefix_inj by blast
  qed
  moreover have "f ` ?A \<subseteq> {..<length t}" using lt by auto
  ultimately have "card ?A \<le> card {..<length t}" by (intro card_inj_on_le) auto
  then show ?thesis by simp
qed

lemma free_candidate: "\<exists>k. m < k \<and> k \<le> m + length t + 1 \<and> \<not> sublist (mark_of k) t"
proof (rule ccontr)
  assume "\<not> ?thesis"
  then have "{m<..m + length t + 1} \<subseteq> {k. sublist (mark_of k) t}" by auto
  then have "card {m<..m + length t + 1} \<le> card {k. sublist (mark_of k) t}"
    by (intro card_mono finite_marks_in)
  with marks_in_text_card[of t] show False by simp
qed

section \<open>The mark generator\<close>

lemma counterLimit_pos: "0 < counterLimit"
  by (simp add: counterLimit_def)

lemma increment_below: "n < counterLimit \<Longrightarrow> increment n = Suc n"
  by (simp add: increment_def)

lemma increment_limit: "increment counterLimit = counterLimit"
  by (simp add: increment_def counterLimit_def)

lemma nextMark_unfold:
  "nextMark s =
     (if sublist (mark_of (increment (markCount s))) (textv s)
      then nextMark (s\<lparr>markCount := increment (markCount s)\<rparr>)
      else Some (mark_of (increment (markCount s)), s\<lparr>markCount := increment (markCount s)\<rparr>))"
  by (subst nextMark.simps) (simp add: Let_def mark_of_def indexOf_sublist)

text \<open>
  Below the limit the loop returns the first counter value above the current one whose
  mark is not in the text, provided there is one up to the limit.
\<close>

lemma nextMark_least:
  assumes "markCount s < k" and "k \<le> counterLimit" and "\<not> sublist (mark_of k) (textv s)"
    and "k - markCount s = d"
  shows "\<exists>k0. markCount s < k0 \<and> k0 \<le> k \<and> nextMark s = Some (mark_of k0, s\<lparr>markCount := k0\<rparr>)
           \<and> \<not> sublist (mark_of k0) (textv s)
           \<and> (\<forall>j. markCount s < j \<and> j < k0 \<longrightarrow> sublist (mark_of j) (textv s))"
  using assms
proof (induction d arbitrary: s)
  case 0
  then show ?case by simp
next
  case (Suc d)
  from Suc.prems have inc: "increment (markCount s) = Suc (markCount s)"
    by (intro increment_below) simp
  show ?case
  proof (cases "sublist (mark_of (Suc (markCount s))) (textv s)")
    case False
    have "nextMark s = Some (mark_of (Suc (markCount s)), s\<lparr>markCount := Suc (markCount s)\<rparr>)"
      using False inc by (subst nextMark_unfold) simp
    with False Suc.prems(1) show ?thesis
      by (intro exI[of _ "Suc (markCount s)"]) auto
  next
    case True
    let ?s1 = "s\<lparr>markCount := Suc (markCount s)\<rparr>"
    from True Suc.prems have ne: "Suc (markCount s) \<noteq> k" by auto
    have "\<exists>k0. markCount ?s1 < k0 \<and> k0 \<le> k \<and> nextMark ?s1 = Some (mark_of k0, ?s1\<lparr>markCount := k0\<rparr>)
           \<and> \<not> sublist (mark_of k0) (textv ?s1)
           \<and> (\<forall>j. markCount ?s1 < j \<and> j < k0 \<longrightarrow> sublist (mark_of j) (textv ?s1))"
      using Suc.prems ne by (intro Suc.IH) auto
    then obtain k0 where k0: "Suc (markCount s) < k0" "k0 \<le> k"
      "nextMark ?s1 = Some (mark_of k0, s\<lparr>markCount := k0\<rparr>)"
      "\<not> sublist (mark_of k0) (textv s)"
      "\<forall>j. Suc (markCount s) < j \<and> j < k0 \<longrightarrow> sublist (mark_of j) (textv s)"
      by auto
    have skip: "\<forall>j. markCount s < j \<and> j < k0 \<longrightarrow> sublist (mark_of j) (textv s)"
    proof (intro allI impI)
      fix j assume "markCount s < j \<and> j < k0"
      then have "j = Suc (markCount s) \<or> (Suc (markCount s) < j \<and> j < k0)" by auto
      with True k0(5) show "sublist (mark_of j) (textv s)" by auto
    qed
    have "nextMark s = Some (mark_of k0, s\<lparr>markCount := k0\<rparr>)"
      using True inc k0(3) by (subst nextMark_unfold) simp
    with k0 skip show ?thesis
      by (intro exI[of _ k0]) auto
  qed
qed

text \<open>At the limit the counter no longer moves: a candidate that is in the text is tested for ever.\<close>

lemma nextMark_stuck:
  assumes "markCount s = counterLimit" and "sublist (mark_of counterLimit) (textv s)"
  shows "nextMark s = None"
proof (rule ccontr)
  assume "nextMark s \<noteq> None"
  then obtain y where y: "nextMark s = Some y" by auto
  have step: "\<not> (markCount x = counterLimit \<and> sublist (mark_of counterLimit) (textv x))"
    if IH: "\<And>x y. f x = Some y \<Longrightarrow> \<not> (markCount x = counterLimit \<and> sublist (mark_of counterLimit) (textv x))"
      and body: "(let s1 = x\<lparr>markCount := increment (markCount x)\<rparr>;
                mark = markPrefix @ toString36 (markCount s1) @ markSuffix
            in if indexOf (textv s1) mark \<noteq> - 1 then f s1 else Some (mark, s1)) = Some z"
    for f x z
  proof
    assume st: "markCount x = counterLimit \<and> sublist (mark_of counterLimit) (textv x)"
    let ?s1 = "x\<lparr>markCount := increment (markCount x)\<rparr>"
    from st have s1: "markCount ?s1 = counterLimit" "textv ?s1 = textv x"
      by (simp_all add: increment_limit)
    from st have "indexOf (textv x) (markPrefix @ toString36 counterLimit @ markSuffix) \<noteq> - 1"
      using indexOf_sublist[of "textv x" "mark_of counterLimit"] by (simp add: mark_of_def)
    with body st have "f ?s1 = Some z"
      by (simp add: Let_def increment_limit)
    from IH[OF this] st s1 show False by simp
  qed
  have "\<not> (markCount s = counterLimit \<and> sublist (mark_of counterLimit) (textv s))"
    by (rule nextMark.raw_induct[where P = "\<lambda>x y. \<not> (markCount x = counterLimit \<and> sublist (mark_of counterLimit) (textv x))", OF step y])
  with assms show False by simp
qed

lemma unusedCounters_finite: "finite (unusedCounters s)"
proof -
  have "unusedCounters s \<subseteq> {..counterLimit}" by (auto simp: unusedCounters_def)
  then show ?thesis by (rule finite_subset) simp
qed

lemma unusedCounters_frame:
  "unusedCounters (s\<lparr>proxyStorage := ps\<rparr>) = unusedCounters s"
  by (simp add: unusedCounters_def)

lemma nextMark_unused:
  assumes "unusedCounters s \<noteq> {}"
  shows "\<exists>k. k \<in> unusedCounters s
           \<and> (\<forall>j. markCount s < j \<and> j < k \<longrightarrow> sublist (mark_of j) (textv s))
           \<and> nextMark s = Some (mark_of k, s\<lparr>markCount := k\<rparr>)
           \<and> unusedCounters (s\<lparr>markCount := k\<rparr>) = unusedCounters s - {k}"
proof -
  from assms obtain k where k: "markCount s < k" "k \<le> counterLimit" "\<not> sublist (mark_of k) (textv s)"
    by (auto simp: unusedCounters_def)
  from nextMark_least[OF k refl] obtain k0 where k0: "markCount s < k0" "k0 \<le> k"
    "nextMark s = Some (mark_of k0, s\<lparr>markCount := k0\<rparr>)"
    "\<not> sublist (mark_of k0) (textv s)"
    "\<forall>j. markCount s < j \<and> j < k0 \<longrightarrow> sublist (mark_of j) (textv s)"
    by blast
  have a: "k0 \<in> unusedCounters s"
    using k0 k(2) by (simp add: unusedCounters_def)
  have b: "unusedCounters (s\<lparr>markCount := k0\<rparr>) = unusedCounters s - {k0}"
  proof (rule set_eqI)
    fix j
    show "j \<in> unusedCounters (s\<lparr>markCount := k0\<rparr>) \<longleftrightarrow> j \<in> unusedCounters s - {k0}"
    proof
      assume "j \<in> unusedCounters (s\<lparr>markCount := k0\<rparr>)"
      with k0(1) show "j \<in> unusedCounters s - {k0}" by (auto simp: unusedCounters_def)
    next
      assume j: "j \<in> unusedCounters s - {k0}"
      then have "\<not> j < k0" using k0(5) by (auto simp: unusedCounters_def)
      with j show "j \<in> unusedCounters (s\<lparr>markCount := k0\<rparr>)" by (auto simp: unusedCounters_def)
    qed
  qed
  from a b k0(3,5) show ?thesis by blast
qed

lemma createProxy_unused:
  assumes "unusedCounters s \<noteq> {}"
  shows "\<exists>k s1. createProxy s r = Some (mark_of k, s1) \<and> textv s1 = textv s
           \<and> Suc (card (unusedCounters s1)) = card (unusedCounters s)"
proof -
  from nextMark_unused[OF assms] obtain k where k: "k \<in> unusedCounters s"
    "nextMark s = Some (mark_of k, s\<lparr>markCount := k\<rparr>)"
    "unusedCounters (s\<lparr>markCount := k\<rparr>) = unusedCounters s - {k}"
    by blast
  let ?s1 = "s\<lparr>markCount := k, proxyStorage := store (proxyStorage s) (mark_of k) r\<rparr>"
  have "createProxy s r = Some (mark_of k, ?s1)"
    using k(2) by (simp add: createProxy_def)
  moreover have "unusedCounters ?s1 = unusedCounters s - {k}"
    using k(3) by (simp add: unusedCounters_def)
  moreover have "Suc (card (unusedCounters s - {k})) = card (unusedCounters s)"
    using unusedCounters_finite[of s] k(1) by (rule card_Suc_Diff1)
  ultimately have "Suc (card (unusedCounters ?s1)) = card (unusedCounters s)"
    by simp
  moreover note \<open>createProxy s r = Some (mark_of k, ?s1)\<close>
  ultimately show ?thesis by (intro exI[of _ k] exI[of _ ?s1]) simp
qed

lemma unusedCounters_card:
  assumes "markCount s + length (textv s) + n \<le> counterLimit"
  shows "n \<le> card (unusedCounters s)"
proof -
  let ?A = "{k. sublist (mark_of k) (textv s)}"
  let ?I = "{markCount s<..counterLimit}"
  have "unusedCounters s = ?I - ?A" by (auto simp: unusedCounters_def)
  moreover have "card ?I - card ?A \<le> card (?I - ?A)"
    by (rule diff_card_le_card_Diff) (rule finite_marks_in)
  moreover have "card ?I = counterLimit - markCount s" by simp
  moreover note marks_in_text_card[of "textv s"]
  ultimately show ?thesis using assms by simp
qed

text \<open>The loop returns when the counter is further below the limit than the text is long.\<close>

lemma nextMark_returns:
  assumes "markCount s + length (textv s) < counterLimit"
  shows "\<exists>k. markCount s < k \<and> k \<le> markCount s + length (textv s) + 1
       \<and> nextMark s = Some (mark_of k, s\<lparr>markCount := k\<rparr>)
       \<and> \<not> sublist (mark_of k) (textv s)
       \<and> (\<forall>j. markCount s < j \<and> j < k \<longrightarrow> sublist (mark_of j) (textv s))"
proof -
  from free_candidate[of "markCount s" "textv s"] obtain k where
    k: "markCount s < k" "k \<le> markCount s + length (textv s) + 1" "\<not> sublist (mark_of k) (textv s)"
    by blast
  from k(2) assms have "k \<le> counterLimit" by simp
  from nextMark_least[OF k(1) this k(3) refl] k(2) show ?thesis
    by (meson le_trans)
qed

lemma createProxy_returns:
  assumes "markCount s + length (textv s) < counterLimit"
  shows "\<exists>k. markCount s < k \<and> k \<le> markCount s + length (textv s) + 1
       \<and> \<not> sublist (mark_of k) (textv s)
       \<and> (\<forall>j. markCount s < j \<and> j < k \<longrightarrow> sublist (mark_of j) (textv s))
       \<and> nextMark s = Some (mark_of k, s\<lparr>markCount := k\<rparr>)
       \<and> createProxy s r = Some (mark_of k,
           s\<lparr>markCount := k, proxyStorage := store (proxyStorage s) (mark_of k) r\<rparr>)"
proof -
  from nextMark_returns[OF assms] obtain k where
    k: "markCount s < k" "k \<le> markCount s + length (textv s) + 1"
    "nextMark s = Some (mark_of k, s\<lparr>markCount := k\<rparr>)"
    "\<not> sublist (mark_of k) (textv s)"
    "\<forall>j. markCount s < j \<and> j < k \<longrightarrow> sublist (mark_of j) (textv s)" by blast
  then show ?thesis
    by (intro exI[of _ k]) (simp add: createProxy_def)
qed

lemma store_fresh: "k \<notin> fst ` set kvs \<Longrightarrow> store kvs k v = kvs @ [(k, v)]"
  by (induction kvs) auto

section \<open>Digesting markup returns\<close>

lemma triggers_append: "triggers (a @ b) = triggers a + triggers b"
  by (simp add: triggers_def)

lemma triggers_Cons: "triggers (c # cs) = (if c = 60 \<or> c = 92 then 1 else 0) + triggers cs"
  by (simp add: triggers_def)

lemma triggers_mark_of: "triggers (mark_of k) = 0"
  using mark_of_clean[of k] by (auto simp: triggers_def list_all_iff filter_empty_conv)

lemma triggers_take_drop:
  assumes "u \<noteq> []" and "hd u = 60 \<or> hd u = 92" and "0 < n"
  shows "Suc (triggers (drop n u)) \<le> triggers u"
proof -
  from assms(1) obtain c cs where u: "u = c # cs" by (cases u) auto
  from assms(3) obtain n' where n: "n = Suc n'" by (cases n) auto
  have "triggers cs = triggers (take n' cs) + triggers (drop n' cs)"
    by (metis append_take_drop_id triggers_append)
  with assms(2) show ?thesis
    unfolding u n by (simp add: triggers_Cons)
qed

lemma comment_tail_bound: "comment_tail cs = Some k \<Longrightarrow> 0 < k \<and> k \<le> length cs"
proof (induction cs arbitrary: k)
  case Nil
  then show ?case by simp
next
  case (Cons c cs)
  show ?case
  proof (cases "prefix (js ''-->'') (c # cs)")
    case True
    then have "length (js ''-->'') \<le> length (c # cs)" by (rule prefix_length_le)
    with True Cons.prems show ?thesis by (simp add: js_def)
  next
    case False
    with Cons.prems obtain k' where "comment_tail cs = Some k'" "k = Suc k'"
      by (auto split: if_splits)
    with Cons.IH[of k'] show ?thesis by simp
  qed
qed

lemma match_comment_shape:
  assumes "match_comment u = Some n"
  shows "u \<noteq> [] \<and> (hd u = 60 \<or> hd u = 92) \<and> 0 < n \<and> n \<le> length u"
proof -
  from assms have p: "prefix (js ''<!--'') u"
    by (auto simp: match_comment_def split: if_splits)
  then obtain r where u: "u = js ''<!--'' @ r" by (auto simp: prefix_def)
  with assms obtain c cs k where r: "r = c # cs" and k: "comment_tail cs = Some k" and n: "n = k + 5"
    by (cases r) (auto simp: match_comment_def js_def split: if_splits)
  from comment_tail_bound[OF k] show ?thesis
    unfolding u r n by (simp add: js_def)
qed

lemma match_tag_shape:
  assumes "match_tag t = Some n"
  shows "t \<noteq> [] \<and> (hd t = 60 \<or> hd t = 92) \<and> 0 < n \<and> n \<le> length t"
proof -
  from assms obtain s1 where t: "t = 60 # s1"
    by (cases t) (auto simp: match_tag_def split: if_splits)
  define s2 where "s2 = (case s1 of [] \<Rightarrow> s1 | c1 # q \<Rightarrow> if c1 = 47 then q else s1)"
  define w where "w = takeWhile isWordChar s2"
  define s3 where "s3 = dropWhile isWordChar s2"
  have m: "match_tag t =
     (if w = [] then None
      else (case s3 of
              [] \<Rightarrow> None
            | x # q \<Rightarrow>
                if x = 62 then Some (length t - length q)
                else if isSpace x then
                  (let a = takeWhile (\<lambda>y. y \<noteq> 62) s3; s4 = dropWhile (\<lambda>y. y \<noteq> 62) s3
                   in if 2 \<le> length a \<and> s4 \<noteq> [] then Some (length t - length s4 + 1) else None)
                else None))"
    unfolding t match_tag_def s2_def w_def s3_def by (simp add: Let_def)
  from assms m have wne: "w \<noteq> []" by (auto split: if_splits)
  from assms m wne obtain x q where s3: "s3 = x # q" by (cases s3) auto
  have l3: "length s3 \<le> length s1"
  proof -
    have "length s3 \<le> length s2" unfolding s3_def by (rule length_dropWhile_le)
    also have "\<dots> \<le> length s1" unfolding s2_def by (cases s1) auto
    finally show ?thesis .
  qed
  show ?thesis
  proof (cases "x = 62")
    case True
    with assms m wne s3 have "n = length t - length q" by simp
    with l3 s3 show ?thesis unfolding t by simp
  next
    case False
    let ?s4 = "dropWhile (\<lambda>y. y \<noteq> 62) s3"
    from assms m wne s3 False have c: "?s4 \<noteq> []" "n = length t - length ?s4 + 1"
      by (auto simp: Let_def split: if_splits)
    define L where "L = length ?s4"
    have "L \<le> length s3" unfolding L_def by (rule length_dropWhile_le)
    moreover from c(1) have "0 < L" unfolding L_def by simp
    moreover from c(2) have "n = length t - L + 1" unfolding L_def .
    ultimately show ?thesis using l3 unfolding t by simp
  qed
qed

lemma match_escape_shape:
  assumes "match_escape u = Some n"
  shows "u \<noteq> [] \<and> (hd u = 60 \<or> hd u = 92) \<and> 0 < n \<and> n \<le> length u"
  using assms by (auto simp: match_escape_def split: list.splits if_splits)

lemma replace_by_proxy_budget:
  assumes "\<And>u n. rx u = Some n \<Longrightarrow> u \<noteq> [] \<and> (hd u = 60 \<or> hd u = 92) \<and> 0 < n \<and> n \<le> length u"
    and "triggers html \<le> card (unusedCounters s)"
  shows "\<exists>y s'. replace_by_proxy rx s html = Some (y, s') \<and> textv s' = textv s
        \<and> card (unusedCounters s) + triggers y \<le> card (unusedCounters s') + triggers html"
  using assms
proof (induction rx s html rule: replace_by_proxy.induct)
  case (1 rx s html)
  note rx = "1.prems"(1)
  note budget = "1.prems"(2)
  show ?case
  proof (cases "rx html")
    case None
    show ?thesis
    proof (cases html)
      case Nil
      with None show ?thesis by (subst replace_by_proxy.simps) simp
    next
      case (Cons c cs)
      from budget Cons have "triggers cs \<le> card (unusedCounters s)"
        by (simp add: triggers_Cons split: if_splits)
      from "1.IH"(1)[OF None Cons rx this] obtain y s' where y:
        "replace_by_proxy rx s cs = Some (y, s')" "textv s' = textv s"
        "card (unusedCounters s) + triggers y \<le> card (unusedCounters s') + triggers cs"
        by blast
      have "replace_by_proxy rx s html = Some (c # y, s')"
        using None Cons y(1) by (subst replace_by_proxy.simps) simp
      with y(2,3) Cons show ?thesis
        by (simp add: triggers_Cons)
    qed
  next
    case (Some n)
    from rx[OF Some] have sh: "html \<noteq> []" "hd html = 60 \<or> hd html = 92" "0 < n" "n \<le> length html"
      by simp_all
    from triggers_take_drop[OF sh(1,2,3)] have td: "Suc (triggers (drop n html)) \<le> triggers html" .
    with budget have "unusedCounters s \<noteq> {}" by auto
    from createProxy_unused[OF this, of "take n html"] obtain k s1 where
      cp: "createProxy s (take n html) = Some (mark_of k, s1)" and tx: "textv s1 = textv s"
      and cd: "Suc (card (unusedCounters s1)) = card (unusedCounters s)"
      by blast
    from td budget cd have "triggers (drop n html) \<le> card (unusedCounters s1)" by simp
    from sh(3,4) have "0 < n \<and> n \<le> length html" by simp
    from "1.IH"(2)[OF Some cp refl this rx \<open>triggers (drop n html) \<le> card (unusedCounters s1)\<close>] obtain y s' where y:
      "replace_by_proxy rx s1 (drop n html) = Some (y, s')" "textv s' = textv s1"
      "card (unusedCounters s1) + triggers y \<le> card (unusedCounters s') + triggers (drop n html)"
      by blast
    have "replace_by_proxy rx s html = Some (mark_of k @ y, s')"
      using Some cp sh(3,4) y(1) by (subst replace_by_proxy.simps) simp
    moreover have "card (unusedCounters s) + triggers (mark_of k @ y)
        \<le> card (unusedCounters s') + triggers html"
      using y(3) td cd by (simp add: triggers_append triggers_mark_of)
    ultimately show ?thesis using y(2) tx by simp
  qed
qed

lemma digestHTML_budget:
  assumes "triggers html \<le> card (unusedCounters s)"
  shows "\<exists>y s'. digestHTML decode s html = Some (y, s') \<and> textv s' = textv s
        \<and> card (unusedCounters s) \<le> card (unusedCounters s') + triggers html"
proof -
  from replace_by_proxy_budget[where rx=match_comment, OF match_comment_shape assms]
  obtain h1 s1 where 1: "replace_by_proxy match_comment s html = Some (h1, s1)" "textv s1 = textv s"
    "card (unusedCounters s) + triggers h1 \<le> card (unusedCounters s1) + triggers html"
    by blast
  from 1(3) assms have "triggers h1 \<le> card (unusedCounters s1)" by simp
  from replace_by_proxy_budget[where rx=match_tag, OF match_tag_shape this]
  obtain h2 s2 where 2: "replace_by_proxy match_tag s1 h1 = Some (h2, s2)" "textv s2 = textv s1"
    "card (unusedCounters s1) + triggers h2 \<le> card (unusedCounters s2) + triggers h1"
    by blast
  from 2(3) \<open>triggers h1 \<le> card (unusedCounters s1)\<close> have "triggers h2 \<le> card (unusedCounters s2)" by simp
  from replace_by_proxy_budget[where rx=match_escape, OF match_escape_shape this]
  obtain h3 s3 where 3: "replace_by_proxy match_escape s2 h2 = Some (h3, s3)" "textv s3 = textv s2"
    "card (unusedCounters s2) + triggers h3 \<le> card (unusedCounters s3) + triggers h2"
    by blast
  have "digestHTML decode s html = Some (decode h3, s3)"
    using 1(1) 2(1) 3(1) by (simp add: digestHTML_def)
  moreover have "textv s3 = textv s" using 1(2) 2(2) 3(2) by simp
  moreover have "card (unusedCounters s) \<le> card (unusedCounters s3) + triggers html"
    using 1(3) 2(3) 3(3) by simp
  ultimately show ?thesis by simp
qed

lemma replace_matches_budget:
  "sum_list (map (\<lambda>m. triggers (f (callbackArguments str m))) ms) \<le> card (unusedCounters s) \<Longrightarrow>
   \<exists>y s'. replace_matches decode s f str pos ms = Some (y, s')"
proof (induction ms arbitrary: s pos)
  case Nil
  then show ?case by simp
next
  case (Cons m ms)
  let ?h = "f (callbackArguments str m)"
  from Cons.prems have "triggers ?h \<le> card (unusedCounters s)" by simp
  from digestHTML_budget[OF this, of decode] obtain h s1 where
    d: "digestHTML decode s ?h = Some (h, s1)"
    "card (unusedCounters s) \<le> card (unusedCounters s1) + triggers ?h"
    by blast
  from d(2) Cons.prems
  have "sum_list (map (\<lambda>m. triggers (f (callbackArguments str m))) ms) \<le> card (unusedCounters s1)"
    by simp
  from Cons.IH[OF this, of "fst m + fst (snd m)"] obtain y s' where
    "replace_matches decode s1 f str (fst m + fst (snd m)) ms = Some (y, s')" by blast
  with d(1) show ?case by simp
qed

text \<open>
  C10.  The loop of \<open>nextMark\<close> does not end for every state: the counter is a double and
  stops at \<open>2^53\<close>.  It ends, after at most as many iterations as the text has characters
  plus one, whenever the counter is further below \<open>2^53\<close> than the text is long: it returns
  the mark of the first counter value whose mark is not a substring of the text, and every
  candidate it skipped is one.  Then \<open>createProxy\<close> returns as well.  \<open>digestHTML\<close>
  returns when in addition the counter leaves room for one mark per \<^verbatim>\<open><\<close> and backslash
  of its argument, and \<open>replace\<close> when it leaves room for those of all the replacement
  markup.
\<close>

theorem nextMark_terminates_below_limit:
  "(markCount s + length (textv s) < counterLimit \<longrightarrow>
      (\<exists>k. markCount s < k \<and> k \<le> markCount s + length (textv s) + 1
         \<and> nextMark s = Some (mark_of k, s\<lparr>markCount := k\<rparr>)
         \<and> \<not> sublist (mark_of k) (textv s) \<and> indexOf (textv s) (mark_of k) = - 1
         \<and> list_all (\<lambda>j. sublist (mark_of j) (textv s)) [Suc (markCount s)..<k]
         \<and> createProxy s r = Some (mark_of k,
              s\<lparr>markCount := k, proxyStorage := store (proxyStorage s) (mark_of k) r\<rparr>)))
   \<and> (markCount s + length (textv s) + triggers html \<le> counterLimit \<longrightarrow>
        (\<exists>y s'. digestHTML decode s html = Some (y, s') \<and> textv s' = textv s))
   \<and> (markCount s + length (textv s)
          + sum_list (map (\<lambda>m. triggers (f (callbackArguments (textv s) m))) (pat (textv s)))
        \<le> counterLimit \<longrightarrow>
        (\<exists>s'. replace decode s pat f = Some s'))"
proof (intro conjI impI)
  assume "markCount s + length (textv s) < counterLimit"
  from createProxy_returns[OF this, of r] obtain k where
    k: "markCount s < k" "k \<le> markCount s + length (textv s) + 1"
    "\<not> sublist (mark_of k) (textv s)"
    "\<forall>j. markCount s < j \<and> j < k \<longrightarrow> sublist (mark_of j) (textv s)"
    "nextMark s = Some (mark_of k, s\<lparr>markCount := k\<rparr>)"
    "createProxy s r = Some (mark_of k,
           s\<lparr>markCount := k, proxyStorage := store (proxyStorage s) (mark_of k) r\<rparr>)"
    by blast
  have "indexOf (textv s) (mark_of k) = - 1"
    using k(3) by (simp add: indexOf_none)
  moreover have "list_all (\<lambda>j. sublist (mark_of j) (textv s)) [Suc (markCount s)..<k]"
    using k(4) by (simp add: list_all_iff)
  ultimately show "\<exists>k. markCount s < k \<and> k \<le> markCount s + length (textv s) + 1
         \<and> nextMark s = Some (mark_of k, s\<lparr>markCount := k\<rparr>)
         \<and> \<not> sublist (mark_of k) (textv s) \<and> indexOf (textv s) (mark_of k) = - 1
         \<and> list_all (\<lambda>j. sublist (mark_of j) (textv s)) [Suc (markCount s)..<k]
         \<and> createProxy s r = Some (mark_of k,
              s\<lparr>markCount := k, proxyStorage := store (proxyStorage s) (mark_of k) r\<rparr>)"
    using k(1,2,3,5,6) by (intro exI[of _ k]) simp
next
  assume "markCount s + length (textv s) + triggers html \<le> counterLimit"
  then have "triggers html \<le> card (unusedCounters s)" by (rule unusedCounters_card)
  from digestHTML_budget[OF this, of decode]
  show "\<exists>y s'. digestHTML decode s html = Some (y, s') \<and> textv s' = textv s" by blast
next
  assume "markCount s + length (textv s)
          + sum_list (map (\<lambda>m. triggers (f (callbackArguments (textv s) m))) (pat (textv s)))
        \<le> counterLimit"
  then have "sum_list (map (\<lambda>m. triggers (f (callbackArguments (textv s) m))) (pat (textv s)))
      \<le> card (unusedCounters s)" by (rule unusedCounters_card)
  from replace_matches_budget[OF this, of decode 0] obtain y s' where
    "replace_matches decode s f (textv s) 0 (pat (textv s)) = Some (y, s')" by blast
  then show "\<exists>s'. replace decode s pat f = Some s'"
    by (simp add: replace_def)
qed

lemmas chaos_eval = mark_of_def markPrefix_def markSuffix_def toString36_small js_def
  counterLimit_def triggers_def callbackArguments_def sample_pattern_def sample_replacement_def
  Let_def

theorem nextMark_terminates_below_limit_witness:
  "markCount \<lparr>textv = mark_of 1 @ js ''x'', proxyStorage = [], markCount = 0\<rparr>
     + length (textv \<lparr>textv = mark_of 1 @ js ''x'', proxyStorage = [], markCount = 0\<rparr>) < counterLimit
   \<and> (\<exists>k. markCount \<lparr>textv = mark_of 1 @ js ''x'', proxyStorage = [], markCount = 0\<rparr> < k
         \<and> k \<le> markCount \<lparr>textv = mark_of 1 @ js ''x'', proxyStorage = [], markCount = 0\<rparr>
                 + length (textv \<lparr>textv = mark_of 1 @ js ''x'', proxyStorage = [], markCount = 0\<rparr>) + 1
         \<and> nextMark \<lparr>textv = mark_of 1 @ js ''x'', proxyStorage = [], markCount = 0\<rparr>
             = Some (mark_of k, \<lparr>textv = mark_of 1 @ js ''x'', proxyStorage = [], markCount = 0\<rparr>\<lparr>markCount := k\<rparr>)
         \<and> \<not> sublist (mark_of k) (textv \<lparr>textv = mark_of 1 @ js ''x'', proxyStorage = [], markCount = 0\<rparr>)
         \<and> indexOf (textv \<lparr>textv = mark_of 1 @ js ''x'', proxyStorage = [], markCount = 0\<rparr>) (mark_of k) = - 1
         \<and> list_all (\<lambda>j. sublist (mark_of j) (textv \<lparr>textv = mark_of 1 @ js ''x'', proxyStorage = [], markCount = 0\<rparr>))
              [Suc (markCount \<lparr>textv = mark_of 1 @ js ''x'', proxyStorage = [], markCount = 0\<rparr>)..<k]
         \<and> createProxy \<lparr>textv = mark_of 1 @ js ''x'', proxyStorage = [], markCount = 0\<rparr> (js ''<b>'')
             = Some (mark_of k,
                \<lparr>textv = mark_of 1 @ js ''x'', proxyStorage = [], markCount = 0\<rparr>
                  \<lparr>markCount := k,
                   proxyStorage := store (proxyStorage \<lparr>textv = mark_of 1 @ js ''x'', proxyStorage = [], markCount = 0\<rparr>)
                                     (mark_of k) (js ''<b>'')\<rparr>))
   \<and> markCount \<lparr>textv = mark_of 1 @ js ''x'', proxyStorage = [], markCount = 0\<rparr>
       + length (textv \<lparr>textv = mark_of 1 @ js ''x'', proxyStorage = [], markCount = 0\<rparr>)
       + triggers (js ''<b>y</b>'') \<le> counterLimit
   \<and> (\<exists>y s'. digestHTML (\<lambda>h. h) \<lparr>textv = mark_of 1 @ js ''x'', proxyStorage = [], markCount = 0\<rparr> (js ''<b>y</b>'')
                = Some (y, s')
            \<and> textv s' = textv \<lparr>textv = mark_of 1 @ js ''x'', proxyStorage = [], markCount = 0\<rparr>)
   \<and> markCount \<lparr>textv = mark_of 1 @ js ''x'', proxyStorage = [], markCount = 0\<rparr>
       + length (textv \<lparr>textv = mark_of 1 @ js ''x'', proxyStorage = [], markCount = 0\<rparr>)
       + sum_list (map (\<lambda>m. triggers (sample_replacement
                          (callbackArguments (textv \<lparr>textv = mark_of 1 @ js ''x'', proxyStorage = [], markCount = 0\<rparr>) m)))
                   (sample_pattern (textv \<lparr>textv = mark_of 1 @ js ''x'', proxyStorage = [], markCount = 0\<rparr>)))
       \<le> counterLimit
   \<and> (\<exists>s'. replace (\<lambda>h. h) \<lparr>textv = mark_of 1 @ js ''x'', proxyStorage = [], markCount = 0\<rparr>
               sample_pattern sample_replacement = Some s')"
proof -
  let ?s = "\<lparr>textv = mark_of 1 @ js ''x'', proxyStorage = [], markCount = 0\<rparr>"
  note T = nextMark_terminates_below_limit[of ?s "js ''<b>''" "js ''<b>y</b>''" "\<lambda>h. h"
      sample_replacement sample_pattern]
  have h1: "markCount ?s + length (textv ?s) < counterLimit"
    by (simp add: chaos_eval)
  have h2: "markCount ?s + length (textv ?s) + triggers (js ''<b>y</b>'') \<le> counterLimit"
    by (simp add: chaos_eval)
  have h3: "markCount ?s + length (textv ?s)
       + sum_list (map (\<lambda>m. triggers (sample_replacement (callbackArguments (textv ?s) m)))
                   (sample_pattern (textv ?s))) \<le> counterLimit"
    by (simp add: chaos_eval)
  note c1 = mp[OF conjunct1[OF T] h1]
  note c2 = mp[OF conjunct1[OF conjunct2[OF T]] h2]
  note c3 = mp[OF conjunct2[OF conjunct2[OF T]] h3]
  show ?thesis
    by (intro conjI h1 h2 h3 c1 c2 c3)
qed

text \<open>
  The loop does not end when the counter is one below \<open>2^53\<close> and the text holds the mark
  of \<open>2^53\<close>: the first increment gives \<open>2^53\<close>, every later one gives \<open>2^53\<close> again, and
  the candidate is in the text each time.
\<close>

theorem nextMark_loops_at_limit:
  "nextMark \<lparr>textv = mark_of counterLimit, proxyStorage = [], markCount = counterLimit - 1\<rparr> = None
   \<and> createProxy \<lparr>textv = mark_of counterLimit, proxyStorage = [], markCount = counterLimit - 1\<rparr>
        (js ''<b>'') = None"
proof -
  let ?s = "\<lparr>textv = mark_of counterLimit, proxyStorage = [], markCount = counterLimit - 1\<rparr>"
  have inc: "increment (markCount ?s) = counterLimit"
    using counterLimit_pos by (simp add: increment_below)
  have "nextMark (?s\<lparr>markCount := counterLimit\<rparr>) = None"
    by (rule nextMark_stuck) simp_all
  then have "nextMark ?s = None"
    using inc by (subst nextMark_unfold) simp
  then show ?thesis
    by (simp add: createProxy_def)
qed

section \<open>Marks of one lifetime\<close>

lemma createProxies_counters:
  assumes "\<forall>k\<in>fst ` set (proxyStorage s). \<exists>j\<le>markCount s. k = mark_of j"
    and "markCount s + sum_list (map (\<lambda>c. Suc (length (fst c))) calls) \<le> counterLimit"
  shows "\<exists>js s'. createProxies s calls = Some (map mark_of js, s')
           \<and> length js = length calls \<and> sorted_wrt (<) js \<and> (\<forall>j\<in>set js. markCount s < j)
           \<and> list_all2 (\<lambda>c j. \<not> sublist (mark_of j) (fst c)) calls js
           \<and> proxyStorage s' = proxyStorage s @ zip (map mark_of js) (map snd calls)"
  using assms
proof (induction calls arbitrary: s)
  case Nil
  then show ?case by simp
next
  case (Cons c calls)
  obtain t r where c: "c = (t, r)" by (cases c)
  let ?s0 = "s\<lparr>textv := t\<rparr>"
  from Cons.prems(2) have "markCount ?s0 + length (textv ?s0) < counterLimit"
    by (simp add: c)
  from createProxy_returns[OF this, of r] obtain k where k:
    "markCount s < k" "k \<le> markCount s + length t + 1" "\<not> sublist (mark_of k) t"
    "createProxy ?s0 r = Some (mark_of k,
       ?s0\<lparr>markCount := k, proxyStorage := store (proxyStorage s) (mark_of k) r\<rparr>)"
    by auto
  let ?s1 = "?s0\<lparr>markCount := k, proxyStorage := store (proxyStorage s) (mark_of k) r\<rparr>"
  have fresh: "mark_of k \<notin> fst ` set (proxyStorage s)"
  proof
    assume "mark_of k \<in> fst ` set (proxyStorage s)"
    with Cons.prems(1) obtain j where "j \<le> markCount s" "mark_of k = mark_of j" by blast
    with k(1) mark_of_inj show False by fastforce
  qed
  then have st: "proxyStorage ?s1 = proxyStorage s @ [(mark_of k, r)]"
    by (simp add: store_fresh)
  have inv1: "\<forall>k'\<in>fst ` set (proxyStorage ?s1). \<exists>j\<le>markCount ?s1. k' = mark_of j"
  proof
    fix k' assume "k' \<in> fst ` set (proxyStorage ?s1)"
    then have "k' = mark_of k \<or> k' \<in> fst ` set (proxyStorage s)"
      unfolding st by auto
    then show "\<exists>j\<le>markCount ?s1. k' = mark_of j"
    proof
      assume "k' = mark_of k"
      then show ?thesis by auto
    next
      assume "k' \<in> fst ` set (proxyStorage s)"
      with Cons.prems(1) obtain j where "j \<le> markCount s" "k' = mark_of j" by blast
      with k(1) show ?thesis by (intro exI[of _ j]) simp
    qed
  qed
  have bound1: "markCount ?s1 + sum_list (map (\<lambda>c. Suc (length (fst c))) calls) \<le> counterLimit"
    using Cons.prems(2) k(2) by (simp add: c)
  from Cons.IH[OF inv1 bound1] obtain js s' where js:
    "createProxies ?s1 calls = Some (map mark_of js, s')"
    "length js = length calls" "sorted_wrt (<) js" "\<forall>j\<in>set js. k < j"
    "list_all2 (\<lambda>c j. \<not> sublist (mark_of j) (fst c)) calls js"
    "proxyStorage s' = proxyStorage ?s1 @ zip (map mark_of js) (map snd calls)"
    by auto
  have "createProxies s (c # calls) = Some (map mark_of (k # js), s')"
    using k(4) js(1) by (simp add: c)
  moreover have "sorted_wrt (<) (k # js)" using js(3,4) by simp
  moreover have "\<forall>j\<in>set (k # js). markCount s < j" using k(1) js(4) by auto
  moreover have "list_all2 (\<lambda>c j. \<not> sublist (mark_of j) (fst c)) (c # calls) (k # js)"
    using k(3) js(5) by (simp add: c)
  moreover have "proxyStorage s' = proxyStorage s @ zip (map mark_of (k # js)) (map snd (c # calls))"
    using js(6) st by (simp add: c)
  moreover have "length (k # js) = length (c # calls)" using js(2) by simp
  ultimately show ?case by blast
qed

lemma createProxy_empty_text:
  assumes "markCount s < counterLimit"
  shows "createProxy (s\<lparr>textv := []\<rparr>) r =
     Some (mark_of (Suc (markCount s)),
           s\<lparr>textv := [], markCount := Suc (markCount s),
             proxyStorage := store (proxyStorage s) (mark_of (Suc (markCount s))) r\<rparr>)"
proof -
  have "\<not> sublist (mark_of (Suc (markCount s))) []"
    using mark_of_hd(1) by simp
  then have "nextMark (s\<lparr>textv := []\<rparr>) =
      Some (mark_of (Suc (markCount s)), s\<lparr>textv := [], markCount := Suc (markCount s)\<rparr>)"
    using assms by (subst nextMark_unfold) (simp add: increment_below)
  then show ?thesis by (simp add: createProxy_def)
qed

lemma createProxy_at_limit:
  assumes "markCount s = counterLimit"
  shows "createProxy (s\<lparr>textv := []\<rparr>) r =
     Some (mark_of counterLimit,
           s\<lparr>textv := [], proxyStorage := store (proxyStorage s) (mark_of counterLimit) r\<rparr>)"
proof -
  have "\<not> sublist (mark_of counterLimit) []"
    using mark_of_hd(1) by simp
  then have "nextMark (s\<lparr>textv := []\<rparr>) = Some (mark_of counterLimit, s\<lparr>textv := []\<rparr>)"
    using assms by (subst nextMark_unfold) (simp add: increment_limit)
  then show ?thesis by (simp add: createProxy_def)
qed

lemma createProxies_append:
  "createProxies s (a @ b) =
     (case createProxies s a of
        None \<Rightarrow> None
      | Some (ms, s1) \<Rightarrow>
          (case createProxies s1 b of
             None \<Rightarrow> None
           | Some (ms', s2) \<Rightarrow> Some (ms @ ms', s2)))"
  by (induction a arbitrary: s) (auto split: option.splits)

lemma createProxies_run:
  "markCount s + n \<le> counterLimit \<Longrightarrow>
   \<exists>s'. createProxies s (replicate n ([], r))
          = Some (map mark_of [Suc (markCount s)..<Suc (markCount s + n)], s')
       \<and> markCount s' = markCount s + n"
proof (induction n arbitrary: s)
  case 0
  then show ?case by simp
next
  case (Suc n)
  let ?s1 = "s\<lparr>textv := [], markCount := Suc (markCount s),
             proxyStorage := store (proxyStorage s) (mark_of (Suc (markCount s))) r\<rparr>"
  from Suc.prems have cp: "createProxy (s\<lparr>textv := []\<rparr>) r = Some (mark_of (Suc (markCount s)), ?s1)"
    by (intro createProxy_empty_text) simp
  from Suc.prems have "markCount ?s1 + n \<le> counterLimit" by simp
  from Suc.IH[OF this] obtain s' where s':
    "createProxies ?s1 (replicate n ([], r))
       = Some (map mark_of [Suc (Suc (markCount s))..<Suc (Suc (markCount s) + n)], s')"
    "markCount s' = Suc (markCount s) + n"
    by auto
  have "[Suc (markCount s)..<Suc (markCount s + Suc n)]
      = Suc (markCount s) # [Suc (Suc (markCount s))..<Suc (Suc (markCount s) + n)]"
    by (simp add: upt_conv_Cons)
  with cp s' show ?case by simp
qed

text \<open>
  C4.  Mark safety.  A model lifetime is the span that starts at the reset in \<open>setHTML\<close>
  (empty \<open>proxyStorage\<close>) and lasts until the next reset.  As long as the counter leaves
  room below \<open>2^53\<close> for the calls of the generator and the lengths of the texts the model
  holds at these calls, every call returns, its mark is not a substring of the text the
  model holds at that moment, the marks are pairwise distinct, and no entry of
  \<open>proxyStorage\<close> is overwritten: it holds one entry per call, in call order.
\<close>

theorem marks_safe_and_distinct:
  assumes "proxyStorage s = []"
    and "markCount s + sum_list (map (\<lambda>c. Suc (length (fst c))) calls) \<le> counterLimit"
  shows "\<exists>marks s'. createProxies s calls = Some (marks, s')
           \<and> length marks = length calls
           \<and> list_all2 (\<lambda>c m. \<not> sublist m (fst c) \<and> indexOf (fst c) m = - 1) calls marks
           \<and> distinct marks
           \<and> proxyStorage s' = zip marks (map snd calls)
           \<and> distinct (map fst (proxyStorage s'))"
proof -
  have "\<forall>k\<in>fst ` set (proxyStorage s). \<exists>j\<le>markCount s. k = mark_of j"
    using assms(1) by simp
  from createProxies_counters[OF this assms(2)] obtain js s' where js:
    "createProxies s calls = Some (map mark_of js, s')"
    "length js = length calls" "sorted_wrt (<) js"
    "list_all2 (\<lambda>c j. \<not> sublist (mark_of j) (fst c)) calls js"
    "proxyStorage s' = proxyStorage s @ zip (map mark_of js) (map snd calls)"
    by blast
  have d: "distinct (map mark_of js)"
    using js(3) by (auto simp: distinct_map inj_on_def strict_sorted_iff dest: mark_of_inj)
  have "list_all2 (\<lambda>c m. \<not> sublist m (fst c) \<and> indexOf (fst c) m = - 1) calls (map mark_of js)"
    using js(4) by (simp add: list_all2_conv_all_nth indexOf_none)
  moreover have "proxyStorage s' = zip (map mark_of js) (map snd calls)"
    using js(5) assms(1) by simp
  moreover from this have "map fst (proxyStorage s') = map mark_of js"
    using js(2) by simp
  ultimately show ?thesis
    using js(1,2) d by (intro exI[of _ "map mark_of js"] exI[of _ s']) simp
qed

theorem marks_safe_and_distinct_witness:
  "proxyStorage \<lparr>textv = [], proxyStorage = [], markCount = 0\<rparr> = []
   \<and> markCount \<lparr>textv = [], proxyStorage = [], markCount = 0\<rparr>
       + sum_list (map (\<lambda>c. Suc (length (fst c)))
                    [(mark_of 1 @ js ''x'', js ''<b>''), (js ''y'', js ''</b>'')]) \<le> counterLimit
   \<and> (\<exists>marks s'. createProxies \<lparr>textv = [], proxyStorage = [], markCount = 0\<rparr>
        [(mark_of 1 @ js ''x'', js ''<b>''), (js ''y'', js ''</b>'')] = Some (marks, s')
      \<and> length marks = length [(mark_of 1 @ js ''x'', js ''<b>''), (js ''y'', js ''</b>'')]
      \<and> list_all2 (\<lambda>c m. \<not> sublist m (fst c) \<and> indexOf (fst c) m = - 1)
           [(mark_of 1 @ js ''x'', js ''<b>''), (js ''y'', js ''</b>'')] marks
      \<and> distinct marks
      \<and> proxyStorage s' = zip marks (map snd [(mark_of 1 @ js ''x'', js ''<b>''), (js ''y'', js ''</b>'')])
      \<and> distinct (map fst (proxyStorage s')))"
proof -
  have h1: "proxyStorage \<lparr>textv = [], proxyStorage = [], markCount = 0\<rparr> = []"
    by simp
  have h2: "markCount \<lparr>textv = [], proxyStorage = [], markCount = 0\<rparr>
       + sum_list (map (\<lambda>c. Suc (length (fst c)))
                    [(mark_of 1 @ js ''x'', js ''<b>''), (js ''y'', js ''</b>'')]) \<le> counterLimit"
    by (simp add: chaos_eval)
  show ?thesis
    by (intro conjI h1 h2 marks_safe_and_distinct[OF h1 h2])
qed

text \<open>
  At \<open>2^53\<close> the increment leaves the counter as it is, and two calls in a row return the
  same mark: the second overwrites the entry of the first.  A lifetime gets there: of
  \<open>2^53 + 1\<close> calls after a reset, the last two return the same mark.
\<close>

theorem marks_repeat_at_limit:
  "createProxies \<lparr>textv = [], proxyStorage = [], markCount = counterLimit\<rparr>
       [([], js ''<b>''), ([], js ''</b>'')]
     = Some ([mark_of counterLimit, mark_of counterLimit],
             \<lparr>textv = [], proxyStorage = [(mark_of counterLimit, js ''</b>'')], markCount = counterLimit\<rparr>)
   \<and> (\<exists>marks s'. createProxies \<lparr>textv = [], proxyStorage = [], markCount = 0\<rparr>
          (replicate (Suc counterLimit) ([], js ''<b>'')) = Some (marks, s')
        \<and> \<not> distinct marks)"
proof
  let ?s = "\<lparr>textv = [], proxyStorage = [], markCount = counterLimit\<rparr>"
  have 1: "createProxy (?s\<lparr>textv := []\<rparr>) (js ''<b>'')
      = Some (mark_of counterLimit, ?s\<lparr>proxyStorage := [(mark_of counterLimit, js ''<b>'')]\<rparr>)"
    by (subst createProxy_at_limit) simp_all
  have 2: "createProxy (?s\<lparr>proxyStorage := [(mark_of counterLimit, js ''<b>'')], textv := []\<rparr>) (js ''</b>'')
      = Some (mark_of counterLimit, ?s\<lparr>proxyStorage := [(mark_of counterLimit, js ''</b>'')]\<rparr>)"
    by (subst createProxy_at_limit) simp_all
  from 1 2 show "createProxies ?s [([], js ''<b>''), ([], js ''</b>'')]
     = Some ([mark_of counterLimit, mark_of counterLimit],
             \<lparr>textv = [], proxyStorage = [(mark_of counterLimit, js ''</b>'')], markCount = counterLimit\<rparr>)"
    by simp
next
  let ?s0 = "\<lparr>textv = [], proxyStorage = [], markCount = 0\<rparr>"
  let ?c = "([], js ''<b>'') :: jsstring \<times> jsstring"
  from createProxies_run[of ?s0 counterLimit "js ''<b>''"] obtain s1 where s1:
    "createProxies ?s0 (replicate counterLimit ?c) = Some (map mark_of [Suc 0..<Suc counterLimit], s1)"
    "markCount s1 = counterLimit"
    by auto
  have "createProxy (s1\<lparr>textv := []\<rparr>) (js ''<b>'')
      = Some (mark_of counterLimit,
              s1\<lparr>textv := [], proxyStorage := store (proxyStorage s1) (mark_of counterLimit) (js ''<b>'')\<rparr>)"
    using s1(2) by (rule createProxy_at_limit)
  then have last: "createProxies s1 [?c] = Some ([mark_of counterLimit],
       s1\<lparr>textv := [], proxyStorage := store (proxyStorage s1) (mark_of counterLimit) (js ''<b>'')\<rparr>)"
    by simp
  have "replicate (Suc counterLimit) ?c = replicate counterLimit ?c @ [?c]"
    by (simp add: replicate_append_same)
  then have run: "createProxies ?s0 (replicate (Suc counterLimit) ?c)
      = Some (map mark_of [Suc 0..<Suc counterLimit] @ [mark_of counterLimit],
          s1\<lparr>textv := [], proxyStorage := store (proxyStorage s1) (mark_of counterLimit) (js ''<b>'')\<rparr>)"
    using s1(1) last by (simp only: createProxies_append option.case prod.case)
  have "counterLimit \<in> set [Suc 0..<Suc counterLimit]"
    using counterLimit_pos by simp
  then have "mark_of counterLimit \<in> mark_of ` set [Suc 0..<Suc counterLimit]"
    by (rule imageI)
  then have "mark_of counterLimit \<in> set (map mark_of [Suc 0..<Suc counterLimit])"
    by (simp only: set_map)
  then have "\<not> distinct (map mark_of [Suc 0..<Suc counterLimit] @ [mark_of counterLimit])"
    by simp
  with run show "\<exists>marks s'. createProxies ?s0 (replicate (Suc counterLimit) ?c) = Some (marks, s')
        \<and> \<not> distinct marks"
    by blast
qed

section \<open>Digest and materialize\<close>











































section \<open>Reconciliation\<close>


lemma applyTo_flush_eq: "applyTo_flush target shadow = target @ shadow"
  by (induction shadow arbitrary: target) auto

lemma applyTo_inner_eq:
  "si \<le> length shadow \<Longrightarrow>
   applyTo_inner shadow t si =
     (case dropWhile (\<lambda>s. \<not> isEqualNode s t) (drop si shadow) of
        [] \<Rightarrow> None
      | s # post \<Rightarrow> Some (si + length (takeWhile (\<lambda>s. \<not> isEqualNode s t) (drop si shadow))))"
proof (induction shadow t si rule: applyTo_inner.induct)
  case (1 shadow tnode si1)
  show ?case
  proof (cases "si1 < length shadow")
    case False
    then show ?thesis by (subst applyTo_inner.simps) simp
  next
    case True
    then have d: "drop si1 shadow = shadow ! si1 # drop (Suc si1) shadow"
      by (simp add: Cons_nth_drop_Suc)
    show ?thesis
    proof (cases "isEqualNode (shadow ! si1) tnode")
      case True
      with \<open>si1 < length shadow\<close> d show ?thesis
        by (subst applyTo_inner.simps) simp
    next
      case False
      with \<open>si1 < length shadow\<close> d "1.IH" show ?thesis
        by (subst applyTo_inner.simps) (simp del: dropWhile_eq_Nil_conv split: list.splits)
    qed
  qed
qed

lemma applyTo_outer_greedy:
  "si \<le> length shadow \<Longrightarrow>
   snd (applyTo_outer target shadow ti si) = take si shadow @ greedy (drop ti target) (drop si shadow)"
proof (induction target shadow ti si rule: applyTo_outer.induct)
  case (1 target shadow ti si)
  let ?P = "\<lambda>s. \<not> isEqualNode s (target ! ti)"
  show ?case
  proof (cases "ti < length target")
    case False
    then show ?thesis by (subst applyTo_outer.simps) simp
  next
    case True
    then have dt: "drop ti target = target ! ti # drop (Suc ti) target"
      by (simp add: Cons_nth_drop_Suc)
    show ?thesis
    proof (cases "dropWhile ?P (drop si shadow)")
      case Nil
      then have "applyTo_inner shadow (target ! ti) si = None"
        using "1.prems" by (simp add: applyTo_inner_eq del: dropWhile_eq_Nil_conv)
      with True Nil "1.IH"(1)[OF True refl _ "1.prems"] dt show ?thesis
        by (subst applyTo_outer.simps) (simp add: Let_def del: dropWhile_eq_Nil_conv)
    next
      case (Cons s post)
      let ?pre = "takeWhile ?P (drop si shadow)"
      let ?si1 = "si + length ?pre"
      have inner: "applyTo_inner shadow (target ! ti) si = Some ?si1"
        using "1.prems" Cons by (simp add: applyTo_inner_eq del: dropWhile_eq_Nil_conv)
      have split: "drop si shadow = ?pre @ s # post"
        using Cons by (metis takeWhile_dropWhile_id)
      then have sh: "shadow = take si shadow @ ?pre @ s # post"
        by (metis append_take_drop_id)
      have len: "length (take si shadow) = si" using "1.prems" by simp
      have lt: "?si1 < length shadow"
        by (subst sh) (simp add: len del: length_take)
      have tk: "take (Suc ?si1) (shadow[?si1 := target ! ti]) = take si shadow @ ?pre @ [target ! ti]"
      proof -
        have "shadow[?si1 := target ! ti] = take si shadow @ ?pre @ target ! ti # post"
          by (subst sh) (simp add: list_update_append len del: length_take)
        moreover have "Suc ?si1 = length (take si shadow @ ?pre @ [target ! ti])"
          using len by simp
        ultimately show ?thesis
          by (metis append.assoc append_Cons append_Nil append_eq_conv_conj)
      qed
      have dr: "drop (Suc ?si1) (shadow[?si1 := target ! ti]) = post"
      proof -
        have "drop (Suc ?si1) (shadow[?si1 := target ! ti]) = drop (Suc ?si1) shadow"
          by simp
        also have "\<dots> = drop (Suc (length ?pre)) (drop si shadow)"
          by (simp add: add.commute)
        also have "\<dots> = post"
          by (subst split) simp
        finally show ?thesis .
      qed
      have dtt: "drop ti (take ti target @ drop (ti + 1) target) = drop (Suc ti) target"
        using True by simp
      have "Suc ?si1 \<le> length (shadow[?si1 := target ! ti])"
        using lt by simp
      from "1.IH"(2)[OF True refl inner] this
      have "snd (applyTo_outer (take ti target @ drop (ti + 1) target) (shadow[?si1 := target ! ti]) ti (?si1 + 1))
          = take (Suc ?si1) (shadow[?si1 := target ! ti])
            @ greedy (drop (Suc ti) target) (drop (Suc ?si1) (shadow[?si1 := target ! ti]))"
        using dtt by simp
      with True inner dt Cons tk dr show ?thesis
        by (subst applyTo_outer.simps) (simp add: Let_def del: dropWhile_eq_Nil_conv)
    qed
  qed
qed

lemma applyTo_eq_greedy: "applyTo scratch target = greedy target scratch"
  using applyTo_outer_greedy[of 0 scratch target 0]
  by (cases "applyTo_outer target scratch 0 0") (simp add: applyTo_def applyTo_flush_eq)

lemma dropWhile_hd_equal:
  "dropWhile (\<lambda>s. \<not> isEqualNode s t) ss = s # post \<Longrightarrow> isEqualNode s t"
  by (metis (mono_tags, lifting) hd_dropWhile list.distinct(1) list.sel(1))

lemma greedy_positions:
  "list_all2 (\<lambda>r s. isEqualNode s r \<and> (r = s \<or> r \<in> set ts)) (greedy ts ss) ss"
proof (induction ts arbitrary: ss)
  case Nil
  then show ?case by (simp add: list_all2_refl isEqualNode_def)
next
  case (Cons t ts)
  let ?P = "\<lambda>s. \<not> isEqualNode s t"
  let ?R = "\<lambda>r s. isEqualNode s r \<and> (r = s \<or> r \<in> set (t # ts))"
  have mono: "list_all2 (\<lambda>r s. isEqualNode s r \<and> (r = s \<or> r \<in> set ts)) xs ys \<Longrightarrow> list_all2 ?R xs ys" for xs ys
    by (erule list_all2_mono) auto
  show ?case
  proof (cases "dropWhile ?P ss")
    case Nil
    then show ?thesis using mono[OF Cons.IH[of ss]] by (simp del: dropWhile_eq_Nil_conv)
  next
    case (Cons s post)
    have eq: "isEqualNode s t" using Cons by (rule dropWhile_hd_equal)
    have ss: "ss = takeWhile ?P ss @ s # post"
      using Cons by (metis takeWhile_dropWhile_id)
    have "list_all2 ?R (takeWhile ?P ss @ t # greedy ts post) (takeWhile ?P ss @ s # post)"
      using eq mono[OF Cons.IH[of post]]
      by (intro list_all2_appendI) (simp_all add: list_all2_refl isEqualNode_def)
    with ss Cons show ?thesis by (simp del: dropWhile_eq_Nil_conv)
  qed
qed

lemma greedy_member_equal:
  assumes "t \<in> set (greedy ts ss)"
  shows "\<exists>s\<in>set ss. isEqualNode s t"
proof -
  from assms obtain i where i: "i < length (greedy ts ss)" "greedy ts ss ! i = t"
    by (auto simp: in_set_conv_nth)
  from greedy_positions[of ts ss] i have "i < length ss" "isEqualNode (ss ! i) t"
    by (auto simp: list_all2_conv_all_nth)
  then show ?thesis by (auto intro: bexI[of _ "ss ! i"])
qed

lemma subseq_after_first:
  "subseq (x # xs) (map f ss) \<Longrightarrow>
     dropWhile (\<lambda>s. f s \<noteq> x) ss \<noteq> [] \<and> subseq xs (map f (tl (dropWhile (\<lambda>s. f s \<noteq> x) ss)))"
proof (induction ss)
  case Nil
  then show ?case by simp
next
  case (Cons s ss)
  then show ?case by (cases "f s = x") (auto simp del: dropWhile_eq_Nil_conv)
qed

lemma greedy_keeps_in_order:
  assumes "set ss \<subseteq> set S"
    and "subseq (map snd (filter (\<lambda>t. \<exists>s\<in>set S. isEqualNode s t) ts)) (map snd ss)"
    and "t \<in> set ts" and "\<exists>s\<in>set S. isEqualNode s t"
  shows "t \<in> set (greedy ts ss)"
  using assms
proof (induction ts arbitrary: ss)
  case Nil
  then show ?case by simp
next
  case (Cons u ts)
  let ?P = "\<lambda>s. \<not> isEqualNode s u"
  show ?case
  proof (cases "\<exists>s\<in>set S. isEqualNode s u")
    case False
    with Cons.prems(1) have "dropWhile ?P ss = []" by auto
    moreover from False Cons.prems have "t \<in> set ts" by auto
    moreover from False Cons.prems(2)
    have "subseq (map snd (filter (\<lambda>t. \<exists>s\<in>set S. isEqualNode s t) ts)) (map snd ss)" by simp
    ultimately show ?thesis
      using Cons.IH[OF Cons.prems(1) _ _ Cons.prems(4)] by (simp del: dropWhile_eq_Nil_conv)
  next
    case True
    with Cons.prems(2)
    have "subseq (snd u # map snd (filter (\<lambda>t. \<exists>s\<in>set S. isEqualNode s t) ts)) (map snd ss)"
      by simp
    from subseq_after_first[OF this]
    have ne: "dropWhile (\<lambda>s. snd s \<noteq> snd u) ss \<noteq> []"
      and sub: "subseq (map snd (filter (\<lambda>t. \<exists>s\<in>set S. isEqualNode s t) ts))
                  (map snd (tl (dropWhile (\<lambda>s. snd s \<noteq> snd u) ss)))"
      by simp_all
    have P: "?P = (\<lambda>s. snd s \<noteq> snd u)" by (simp add: isEqualNode_def)
    from ne obtain s post where dw: "dropWhile ?P ss = s # post"
      unfolding P by (cases "dropWhile (\<lambda>s. snd s \<noteq> snd u) ss") auto
    have "set post \<subseteq> set S"
      using Cons.prems(1) dw by (metis set_dropWhileD set_subset_Cons subset_code(1) subset_trans)
    moreover have "subseq (map snd (filter (\<lambda>t. \<exists>s\<in>set S. isEqualNode s t) ts)) (map snd post)"
      using sub dw unfolding P by simp
    ultimately have "t \<in> set ts \<Longrightarrow> t \<in> set (greedy ts post)"
      using Cons.IH Cons.prems(4) by blast
    with Cons.prems(3) dw show ?thesis by (auto simp del: dropWhile_eq_Nil_conv)
  qed
qed

lemma greedy_no_match:
  "\<forall>s\<in>set ss. \<not> isEqualNode s t \<Longrightarrow> greedy (t # ts) ss = greedy ts ss"
proof -
  assume "\<forall>s\<in>set ss. \<not> isEqualNode s t"
  then have "dropWhile (\<lambda>s. \<not> isEqualNode s t) ss = []" by simp
  then show ?thesis by (simp del: dropWhile_eq_Nil_conv)
qed

lemma greedy_first_match:
  assumes "isEqualNode s t" and "\<forall>u\<in>set pre. \<not> isEqualNode u t"
  shows "greedy (t # ts) (pre @ s # post) = pre @ t # greedy ts post"
proof -
  have "dropWhile (\<lambda>s. \<not> isEqualNode s t) (pre @ s # post) = s # post"
    using assms by (simp add: dropWhile_append2)
  moreover have "takeWhile (\<lambda>s. \<not> isEqualNode s t) (pre @ s # post) = pre"
    using assms by (simp add: takeWhile_append2)
  ultimately show ?thesis by (simp del: dropWhile_eq_Nil_conv)
qed

text \<open>
  C2 (amended).  \<open>applyTo\<close> takes the live children in order, each against the scratch
  children that come after the counterpart of the last live child it kept.  A live child
  with no structurally equal node among these is dropped.  Otherwise it is kept, with its
  identity, in the place of the first such node; the scratch children before that place
  stay, and only those after it are left for the later live children: a later live child is
  kept only if it has a structurally equal scratch child there.  When no live child is
  left, the remaining scratch children stay.  Hence the children of \<open>target\<close> are then,
  position by position, structurally equal to the scratch children, each either the
  scratch node itself or a live child; a live child with no structurally equal scratch
  child is dropped; and all live children that have one are kept when their structures
  occur among the scratch children in the same relative order.
\<close>

theorem applyTo_reconciles:
  "applyTo scratch [] = scratch
   \<and> ((\<forall>u\<in>set scratch. \<not> isEqualNode u t) \<longrightarrow> applyTo scratch (t # ts) = applyTo scratch ts)
   \<and> (isEqualNode s t \<and> (\<forall>u\<in>set pre. \<not> isEqualNode u t) \<longrightarrow>
        applyTo (pre @ s # post) (t # ts) = pre @ t # applyTo post ts
        \<and> (\<forall>t'\<in>set (applyTo (pre @ s # post) (t # ts)).
             t' \<in> set pre \<or> t' = t \<or> (\<exists>s'\<in>set post. isEqualNode s' t')))
   \<and> list_all2 (\<lambda>r s. isEqualNode s r \<and> (r = s \<or> r \<in> set target)) (applyTo scratch target) scratch
   \<and> (\<forall>t\<in>set target. (\<forall>s\<in>set scratch. \<not> isEqualNode s t) \<longrightarrow> t \<notin> set (applyTo scratch target))
   \<and> (subseq (map snd (filter (\<lambda>t. \<exists>s\<in>set scratch. isEqualNode s t) target)) (map snd scratch) \<longrightarrow>
        (\<forall>t\<in>set target. (\<exists>s\<in>set scratch. isEqualNode s t) \<longrightarrow> t \<in> set (applyTo scratch target)))"
proof -
  have 1: "applyTo scratch [] = scratch"
    by (simp add: applyTo_eq_greedy)
  have 2: "(\<forall>u\<in>set scratch. \<not> isEqualNode u t) \<longrightarrow> applyTo scratch (t # ts) = applyTo scratch ts"
    by (simp only: applyTo_eq_greedy) (rule impI, rule greedy_no_match)
  have 3: "isEqualNode s t \<and> (\<forall>u\<in>set pre. \<not> isEqualNode u t) \<longrightarrow>
        applyTo (pre @ s # post) (t # ts) = pre @ t # applyTo post ts
        \<and> (\<forall>t'\<in>set (applyTo (pre @ s # post) (t # ts)).
             t' \<in> set pre \<or> t' = t \<or> (\<exists>s'\<in>set post. isEqualNode s' t'))"
  proof
    assume a: "isEqualNode s t \<and> (\<forall>u\<in>set pre. \<not> isEqualNode u t)"
    then have "greedy (t # ts) (pre @ s # post) = pre @ t # greedy ts post"
      by (intro greedy_first_match) simp_all
    then have e: "applyTo (pre @ s # post) (t # ts) = pre @ t # applyTo post ts"
      by (simp only: applyTo_eq_greedy)
    have "\<forall>t'\<in>set (applyTo post ts). \<exists>s'\<in>set post. isEqualNode s' t'"
      unfolding applyTo_eq_greedy using greedy_member_equal[of _ ts post] by blast
    then have "\<forall>t'\<in>set (pre @ t # applyTo post ts).
             t' \<in> set pre \<or> t' = t \<or> (\<exists>s'\<in>set post. isEqualNode s' t')"
      by auto
    with e show "applyTo (pre @ s # post) (t # ts) = pre @ t # applyTo post ts
        \<and> (\<forall>t'\<in>set (applyTo (pre @ s # post) (t # ts)).
             t' \<in> set pre \<or> t' = t \<or> (\<exists>s'\<in>set post. isEqualNode s' t'))"
      by simp
  qed
  have 4: "list_all2 (\<lambda>r s. isEqualNode s r \<and> (r = s \<or> r \<in> set target)) (applyTo scratch target) scratch
   \<and> (\<forall>t\<in>set target. (\<forall>s\<in>set scratch. \<not> isEqualNode s t) \<longrightarrow> t \<notin> set (applyTo scratch target))
   \<and> (subseq (map snd (filter (\<lambda>t. \<exists>s\<in>set scratch. isEqualNode s t) target)) (map snd scratch) \<longrightarrow>
        (\<forall>t\<in>set target. (\<exists>s\<in>set scratch. isEqualNode s t) \<longrightarrow> t \<in> set (applyTo scratch target)))"
    unfolding applyTo_eq_greedy
    using greedy_positions[of target scratch] greedy_member_equal[of _ target scratch]
      greedy_keeps_in_order[of scratch scratch target]
    by blast
  from 1 2 3 4 show ?thesis by (intro conjI) (elim conjE, assumption)+
qed

theorem applyTo_reconciles_witness:
  "applyTo [(11, ''x''), (12, ''c'')] [(2::nat, ''b''), (3, ''c'')] = applyTo [(11, ''x''), (12, ''c'')] [(3, ''c'')]
   \<and> applyTo ([(11, ''x'')] @ (20, ''b'') # [(12, ''c'')]) [(2::nat, ''b''), (3, ''c'')]
       = [(11, ''x'')] @ (2, ''b'') # applyTo [(12, ''c'')] [(3, ''c'')]
   \<and> applyTo [(11, ''x''), (20, ''b''), (12, ''c'')] [(2::nat, ''b''), (3, ''c'')]
       = [(11, ''x''), (2, ''b''), (3, ''c'')]
   \<and> applyTo [(11, ''x''), (12, ''c'')] [(2::nat, ''b''), (3, ''c'')] = [(11, ''x''), (3, ''c'')]
   \<and> (3, ''c'') \<in> set (applyTo [(11, ''x''), (12, ''c'')] [(2::nat, ''b''), (3, ''c'')])
   \<and> (2, ''b'') \<notin> set (applyTo [(11, ''x''), (12, ''c'')] [(2::nat, ''b''), (3, ''c'')])"
proof -
  let ?S = "[(11::nat, ''x''), (12, ''c'')]"
  let ?T = "[(2::nat, ''b''), (3, ''c'')]"
  note T = applyTo_reconciles[of ?S "(2, ''b'')" "[(3, ''c'')]" "(20, ''b'')" "[(11, ''x'')]" "[(12, ''c'')]" ?T]
  have h2: "\<forall>u\<in>set ?S. \<not> isEqualNode u (2, ''b'')"
    by (simp add: isEqualNode_def)
  have h3: "isEqualNode (20::nat, ''b'') (2, ''b'') \<and> (\<forall>u\<in>set [(11::nat, ''x'')]. \<not> isEqualNode u (2, ''b''))"
    by (simp add: isEqualNode_def)
  have sub: "subseq (map snd (filter (\<lambda>t. \<exists>s\<in>set ?S. isEqualNode s t) ?T)) (map snd ?S)"
    by (simp add: isEqualNode_def)
  have c: "\<exists>s\<in>set ?S. isEqualNode s (3, ''c'')"
    by (simp add: isEqualNode_def)
  from T h2 have c2: "applyTo ?S ?T = applyTo ?S [(3, ''c'')]" by blast
  from T h3 have c3: "applyTo ([(11, ''x'')] @ (20, ''b'') # [(12, ''c'')]) ?T
       = [(11, ''x'')] @ (2, ''b'') # applyTo [(12, ''c'')] [(3, ''c'')]" by blast
  from T sub c have c5: "(3, ''c'') \<in> set (applyTo ?S ?T)" by auto
  from T h2 have c6: "(2, ''b'') \<notin> set (applyTo ?S ?T)" by auto
  have e1: "applyTo [(11, ''x''), (20, ''b''), (12, ''c'')] ?T = [(11, ''x''), (2, ''b''), (3, ''c'')]"
    by code_simp
  have e2: "applyTo ?S ?T = [(11, ''x''), (3, ''c'')]"
    by code_simp
  show ?thesis
    by (intro conjI c2 c3 c5 c6 e1 e2)
qed

text \<open>
  C2 as stated fails: with the live children \<open>a, b\<close> and the scratch children \<open>b, a\<close> the
  scan position is past the scratch \<open>b\<close> once \<open>a\<close> has matched, and the live \<open>b\<close> is dropped
  although a structurally equal scratch child exists.
\<close>

theorem applyTo_retention_counterexample:
  "(2, ''b'') \<in> set [(1::nat, ''a''), (2, ''b'')]
   \<and> (10, ''b'') \<in> set [(10::nat, ''b''), (11, ''a'')]
   \<and> isEqualNode (10::nat, ''b'') (2, ''b'')
   \<and> applyTo [(10, ''b''), (11, ''a'')] [(1::nat, ''a''), (2, ''b'')] = [(10, ''b''), (1, ''a'')]
   \<and> (2, ''b'') \<notin> set (applyTo [(10, ''b''), (11, ''a'')] [(1::nat, ''a''), (2, ''b'')])"
proof -
  have "applyTo [(10, ''b''), (11, ''a'')] [(1::nat, ''a''), (2, ''b'')] = [(10, ''b''), (1, ''a'')]"
    by code_simp
  then show ?thesis by (simp add: isEqualNode_def)
qed

section \<open>Block elevation: which descriptor decides\<close>

lemma prepareElevate_null: "prepareElevate P c d None = (None, d)"
  by (simp add: prepareElevate_def)

lemma prepareElevate_no_match:
  "exec (featureMark c) (textContent d n) = None \<Longrightarrow> prepareElevate P c d (Some n) = (None, d)"
  by (simp add: prepareElevate_def)

lemma prepareElevate_result:
  "prepareElevate P c d node = (None, d') \<Longrightarrow> d' = d"
  by (auto simp: prepareElevate_def split: option.splits if_splits)

lemma container_Elevate_null: "container_Elevate P c d None = Some (Inr (None, d))"
  by (cases "elevateMethod c")
     (simp_all add: container_Elevate_def Elevate_def HR_Elevate_def HeaderText_Elevate_def prepareElevate_null)

lemma container_Elevate_no_match:
  "exec (featureMark c) (textContent d n) = None \<Longrightarrow>
   container_Elevate P c d (Some n) = Some (Inr (None, d))"
  by (cases "elevateMethod c")
     (simp_all add: container_Elevate_def Elevate_def HR_Elevate_def HeaderText_Elevate_def
        prepareElevate_no_match)

lemma container_Elevate_null_result:
  assumes "container_Elevate P c d node = Some (Inr (None, d'))"
  shows "d' = d"
proof (cases "prepareElevate P c d node")
  case (Pair m d0)
  show ?thesis
  proof (cases m)
    case None
    with Pair have "d0 = d" by (simp add: prepareElevate_result)
    with assms Pair None show ?thesis
      by (cases "elevateMethod c")
         (simp_all add: container_Elevate_def Elevate_def HR_Elevate_def HeaderText_Elevate_def)
  next
    case (Some a)
    with Pair obtain n where n: "node = Some n"
      by (cases node) (auto simp: prepareElevate_def)
    with assms Pair Some show ?thesis
      by (cases "elevateMethod c")
         (auto simp: container_Elevate_def Elevate_def HR_Elevate_def HeaderText_Elevate_def
            split: option.splits sum.splits prod.splits if_splits)
  qed
qed

lemma BlockRenderer_Elevate_sound:
  assumes "BlockRenderer_Elevate P cs d node = Some (Inr (Some (c, r), d'))"
  shows "\<exists>i<length cs. c = cs ! i \<and> container_Elevate P (cs ! i) d node = Some (Inr (Some r, d'))
           \<and> (\<forall>j<i. container_Elevate P (cs ! j) d node = Some (Inr (None, d)))"
  using assms
proof (induction cs)
  case Nil
  then show ?case by simp
next
  case (Cons a cs)
  show ?case
  proof (cases "container_Elevate P a d node")
    case None
    with Cons.prems show ?thesis by simp
  next
    case (Some res)
    show ?thesis
    proof (cases res)
      case (Inl e)
      with Some Cons.prems show ?thesis by simp
    next
      case (Inr pr)
      obtain ro d1 where pr: "pr = (ro, d1)" by (cases pr)
      show ?thesis
      proof (cases ro)
        case None
        with Some Inr pr have a: "container_Elevate P a d node = Some (Inr (None, d1))" by simp
        then have d1: "d1 = d" by (rule container_Elevate_null_result)
        from Cons.prems a d1 have "BlockRenderer_Elevate P cs d node = Some (Inr (Some (c, r), d'))"
          by simp
        from Cons.IH[OF this] obtain i where i: "i < length cs" "c = cs ! i"
          "container_Elevate P (cs ! i) d node = Some (Inr (Some r, d'))"
          "\<forall>j<i. container_Elevate P (cs ! j) d node = Some (Inr (None, d))" by blast
        have "\<forall>j<Suc i. container_Elevate P ((a # cs) ! j) d node = Some (Inr (None, d))"
          using i(4) a d1 by (auto simp: less_Suc_eq_0_disj)
        with i(1,2,3) show ?thesis
          by (intro exI[of _ "Suc i"]) simp
      next
        case (Some r')
        with \<open>container_Elevate P a d node = Some res\<close> Inr pr Cons.prems show ?thesis
          by (intro exI[of _ 0]) simp
      qed
    qed
  qed
qed

lemma BlockRenderer_Elevate_first:
  assumes "i < length cs"
    and "container_Elevate P (cs ! i) d node = Some (Inr (Some r, d'))"
    and "\<forall>j<i. container_Elevate P (cs ! j) d node = Some (Inr (None, d))"
  shows "BlockRenderer_Elevate P cs d node = Some (Inr (Some (cs ! i, r), d'))"
  using assms
proof (induction cs arbitrary: i)
  case Nil
  then show ?case by simp
next
  case (Cons a cs)
  show ?case
  proof (cases i)
    case 0
    with Cons.prems show ?thesis by simp
  next
    case (Suc k)
    with Cons.prems have a: "container_Elevate P a d node = Some (Inr (None, d))" by auto
    have "BlockRenderer_Elevate P cs d node = Some (Inr (Some (cs ! k, r), d'))"
      using Cons.prems Suc by (intro Cons.IH) auto
    with a Suc show ?thesis by simp
  qed
qed

lemma BlockRenderer_Elevate_none:
  assumes "\<forall>c\<in>set cs. container_Elevate P c d node = Some (Inr (None, d))"
  shows "BlockRenderer_Elevate P cs d node = Some (Inr (None, d))"
  using assms by (induction cs) auto

lemma descendantText_numeral:
  "descendantText (numeral k) h r =
     (case nodeType (h r) of
        TEXT_NODE \<Rightarrow> ndata (h r)
      | ELEMENT_NODE \<Rightarrow> concat (map (descendantText (pred_numeral k) h) (childNodes (h r)))
      | COMMENT_NODE \<Rightarrow> []
      | DOCUMENT_NODE \<Rightarrow> [])"
  by (simp add: numeral_eq_Suc)

lemma serialize_numeral:
  "serialize (numeral k) h raw r =
     (case nodeType (h r) of
        TEXT_NODE \<Rightarrow> if raw then ndata (h r) else escapeText (ndata (h r))
      | COMMENT_NODE \<Rightarrow> js ''<!--'' @ ndata (h r) @ js ''-->''
      | DOCUMENT_NODE \<Rightarrow> []
      | ELEMENT_NODE \<Rightarrow>
          js ''<'' @ toLowerCase (nodeName (h r))
          @ concat (map (\<lambda>(a, v). js '' '' @ a @ js ''=\"'' @ escapeAttr v @ js ''\"'') (attributes (h r)))
          @ js ''>''
          @ (if nodeName (h r) \<in> set voidElements then []
             else concat (map (serialize (pred_numeral k) h (nodeName (h r) \<in> set rawTextElements)) (childNodes (h r)))
                  @ js ''</'' @ toLowerCase (nodeName (h r)) @ js ''>''))"
  by (simp add: numeral_eq_Suc)

lemmas dom_eval =
  parseHTML_sample_def noNode_def elementNode_def textNode_def doc_block_def makeMarkdownRenderer_def
  container_Elevate_def HeaderText_Elevate_def HR_Elevate_def Elevate_def
  prepareElevate_def markdownContainers_def BLOCKQUOTE_def HeaderText_def HR_def OL_def UL_def
  exec_UL_def exec_OL_def exec_BLOCKQUOTE_def exec_HR_def exec_HeaderText_def
  textContent_def get_innerHTML_def set_innerHTML_def replace_featureMark_def
  renameNode_def createElement_def allocate_def setChildNodes_def detach_def appendChild_def
  insertBefore_def removeChild_def replaceChild_def parentNode_def parentElement_def firstChild_def
  previousElementSibling_def isElement_def wrap_def wrapOrMerge_def mergeTarget_def truthy_def
  toUpperCase_def toLowerCase_def isSpace_def isDigit_def js_def voidElements_def
  rawTextElements_def
  descendantText_numeral serialize_numeral upt_rec replace_nbsp.simps
  moveChildren.simps toString10.simps Let_def

text \<open>The \<open>innerHTML\<close> getter on a paragraph and on a \<open>style\<close> element holding the text \<open>a > b\<close>.\<close>

lemma get_innerHTML_escapes:
  "get_innerHTML (doc_block ''a > b'') 1 = js ''a &gt; b'' \<and> get_innerHTML doc_style 0 = js ''a > b''"
  by (simp add: dom_eval doc_eval)

text \<open>
  C5.  The renderer made by \<open>makeMarkdownRenderer\<close> holds the descriptors in the order
  blockquote, header text, horizontal rule, ordered list, unordered list.  A non-null result
  of \<open>BlockRenderer.Elevate\<close> is the result of some descriptor, returned with that descriptor,
  and every descriptor before it returned \<open>null\<close> and left the document alone; conversely the
  first descriptor that returns a result decides.  When no descriptor matches (or the node
  is \<open>null\<close>) the call returns \<open>null\<close>: it neither raises nor fails to return.
\<close>

theorem BlockRenderer_Elevate_priority:
  "map name makeMarkdownRenderer =
     [js ''blockquote'', js ''header text'', js ''hr'', js ''ordered list'', js ''unordered list'']
   \<and> (BlockRenderer_Elevate P makeMarkdownRenderer d node = Some (Inr (Some (c, r), d')) \<longrightarrow>
        (\<exists>i<length makeMarkdownRenderer. c = makeMarkdownRenderer ! i
           \<and> container_Elevate P c d node = Some (Inr (Some r, d'))
           \<and> (\<forall>j<i. container_Elevate P (makeMarkdownRenderer ! j) d node = Some (Inr (None, d)))))
   \<and> (i < length makeMarkdownRenderer
        \<and> container_Elevate P (makeMarkdownRenderer ! i) d node = Some (Inr (Some r, d'))
        \<and> (\<forall>j<i. container_Elevate P (makeMarkdownRenderer ! j) d node = Some (Inr (None, d)))
       \<longrightarrow> BlockRenderer_Elevate P makeMarkdownRenderer d node
             = Some (Inr (Some (makeMarkdownRenderer ! i, r), d')))
   \<and> ((\<forall>c\<in>set makeMarkdownRenderer. \<forall>n. node = Some n \<longrightarrow> exec (featureMark c) (textContent d n) = None)
       \<longrightarrow> BlockRenderer_Elevate P makeMarkdownRenderer d node = Some (Inr (None, d)))"
proof (intro conjI impI)
  show "map name makeMarkdownRenderer =
     [js ''blockquote'', js ''header text'', js ''hr'', js ''ordered list'', js ''unordered list'']"
    by (simp add: makeMarkdownRenderer_def markdownContainers_def BLOCKQUOTE_def HeaderText_def
        HR_def OL_def UL_def)
next
  assume "BlockRenderer_Elevate P makeMarkdownRenderer d node = Some (Inr (Some (c, r), d'))"
  from BlockRenderer_Elevate_sound[OF this]
  show "\<exists>i<length makeMarkdownRenderer. c = makeMarkdownRenderer ! i
           \<and> container_Elevate P c d node = Some (Inr (Some r, d'))
           \<and> (\<forall>j<i. container_Elevate P (makeMarkdownRenderer ! j) d node = Some (Inr (None, d)))"
    by blast
next
  assume "i < length makeMarkdownRenderer
        \<and> container_Elevate P (makeMarkdownRenderer ! i) d node = Some (Inr (Some r, d'))
        \<and> (\<forall>j<i. container_Elevate P (makeMarkdownRenderer ! j) d node = Some (Inr (None, d)))"
  then show "BlockRenderer_Elevate P makeMarkdownRenderer d node
             = Some (Inr (Some (makeMarkdownRenderer ! i, r), d'))"
    using BlockRenderer_Elevate_first by blast
next
  assume a: "\<forall>c\<in>set makeMarkdownRenderer. \<forall>n. node = Some n \<longrightarrow> exec (featureMark c) (textContent d n) = None"
  have "\<forall>c\<in>set makeMarkdownRenderer. container_Elevate P c d node = Some (Inr (None, d))"
  proof
    fix c assume "c \<in> set makeMarkdownRenderer"
    with a show "container_Elevate P c d node = Some (Inr (None, d))"
      by (cases node) (auto simp: container_Elevate_null container_Elevate_no_match)
  qed
  then show "BlockRenderer_Elevate P makeMarkdownRenderer d node = Some (Inr (None, d))"
    by (rule BlockRenderer_Elevate_none)
qed

lemma rule_block_HR:
  "\<exists>r d'. container_Elevate parseHTML_sample (makeMarkdownRenderer ! 2) (doc_block ''* * *'') (Some 1)
     = Some (Inr (Some r, d'))"
  by (simp add: dom_eval)

lemma rule_block_earlier:
  "\<forall>j<2. container_Elevate parseHTML_sample (makeMarkdownRenderer ! j) (doc_block ''* * *'') (Some 1)
     = Some (Inr (None, doc_block ''* * *''))"
proof -
  have "container_Elevate parseHTML_sample (makeMarkdownRenderer ! 0) (doc_block ''* * *'') (Some 1)
     = Some (Inr (None, doc_block ''* * *''))"
    by (rule container_Elevate_no_match) (simp add: dom_eval)
  moreover have "container_Elevate parseHTML_sample (makeMarkdownRenderer ! 1) (doc_block ''* * *'') (Some 1)
     = Some (Inr (None, doc_block ''* * *''))"
    by (rule container_Elevate_no_match) (simp add: dom_eval)
  ultimately show ?thesis
    by (auto simp: less_Suc_eq numeral_2_eq_2)
qed

theorem BlockRenderer_Elevate_priority_witness:
  "exec (featureMark HR) (textContent (doc_block ''* * *'') 1) \<noteq> None
   \<and> exec (featureMark UL) (textContent (doc_block ''* * *'') 1) \<noteq> None
   \<and> makeMarkdownRenderer ! 2 = HR \<and> makeMarkdownRenderer ! 4 = UL
   \<and> (\<exists>r d'. BlockRenderer_Elevate parseHTML_sample makeMarkdownRenderer (doc_block ''* * *'') (Some 1)
         = Some (Inr (Some (HR, r), d')))"
proof -
  from rule_block_HR obtain r d' where
    r: "container_Elevate parseHTML_sample (makeMarkdownRenderer ! 2) (doc_block ''* * *'') (Some 1)
          = Some (Inr (Some r, d'))" by blast
  have len: "2 < length makeMarkdownRenderer"
    by (simp add: makeMarkdownRenderer_def markdownContainers_def)
  have "BlockRenderer_Elevate parseHTML_sample makeMarkdownRenderer (doc_block ''* * *'') (Some 1)
          = Some (Inr (Some (makeMarkdownRenderer ! 2, r), d'))"
    using BlockRenderer_Elevate_priority[of parseHTML_sample "doc_block ''* * *''" "Some 1" _ r d' 2]
      len r rule_block_earlier by blast
  moreover have "makeMarkdownRenderer ! 2 = HR" "makeMarkdownRenderer ! 4 = UL"
    by (simp_all add: makeMarkdownRenderer_def markdownContainers_def)
  moreover have "exec (featureMark HR) (textContent (doc_block ''* * *'') 1) \<noteq> None"
    "exec (featureMark UL) (textContent (doc_block ''* * *'') 1) \<noteq> None"
    by (simp_all add: dom_eval)
  ultimately show ?thesis by auto
qed

text \<open>
  C9.  When the text of the node matches the feature mark of no registered descriptor,
  \<open>BlockRenderer.Elevate\<close> returns \<open>null\<close> and the document it returns is the document it was
  given: no node, child list or reference has changed.
\<close>

theorem BlockRenderer_Elevate_no_match_unchanged:
  assumes "\<forall>c\<in>set containers. exec (featureMark c) (textContent d n) = None"
  shows "BlockRenderer_Elevate P containers d (Some n) = Some (Inr (None, d))"
proof (rule BlockRenderer_Elevate_none)
  show "\<forall>c\<in>set containers. container_Elevate P c d (Some n) = Some (Inr (None, d))"
    using assms by (auto simp: container_Elevate_no_match)
qed

theorem BlockRenderer_Elevate_no_match_unchanged_witness:
  "list_all (\<lambda>c. exec (featureMark c) (textContent (doc_block ''Hello'') 1) = None) makeMarkdownRenderer
   \<and> BlockRenderer_Elevate parseHTML_sample makeMarkdownRenderer (doc_block ''Hello'') (Some 1)
       = Some (Inr (None, doc_block ''Hello''))"
proof -
  have h: "\<forall>c\<in>set makeMarkdownRenderer. exec (featureMark c) (textContent (doc_block ''Hello'') 1) = None"
    by (simp add: dom_eval)
  show ?thesis
    using h BlockRenderer_Elevate_no_match_unchanged[OF h] by (simp add: list_all_iff)
qed

section \<open>Block elevation: the tree after a match\<close>

subsection \<open>Frame facts of the tree operations\<close>

lemma build_props:
  "\<forall>r d'. build t d = (r, d') \<longrightarrow>
     r = fresh d \<and> fresh d < fresh d' \<and> (\<forall>q<fresh d. heap d' q = heap d q)"
  "\<forall>rs d'. build_list ts d = (rs, d') \<longrightarrow>
     fresh d \<le> fresh d' \<and> (\<forall>q<fresh d. heap d' q = heap d q)
     \<and> (\<forall>r\<in>set rs. fresh d \<le> r \<and> r < fresh d') \<and> distinct rs"
proof (induction t d and ts d rule: build_build_list.induct)
  case (1 s d)
  then show ?case by (simp add: allocate_def)
next
  case (2 s d)
  then show ?case by (simp add: allocate_def)
next
  case (3 nm attrs ts d)
  then show ?case
    by (auto simp: allocate_def setChildNodes_def split: prod.splits)
next
  case (4 d)
  then show ?case by simp
next
  case (5 t ts d)
  show ?case
  proof (intro allI impI)
    fix rs d' assume b: "build_list (t # ts) d = (rs, d')"
    obtain r d1 where r: "build t d = (r, d1)" by (cases "build t d")
    obtain rs' d2 where rs': "build_list ts d1 = (rs', d2)" by (cases "build_list ts d1")
    from b r rs' have eq: "rs = r # rs'" "d' = d2" by simp_all
    from "5.IH"(1) r have r1: "r = fresh d" "fresh d < fresh d1" "\<forall>q<fresh d. heap d1 q = heap d q"
      by auto
    from "5.IH"(2)[OF r[symmetric]] rs'
    have r2: "fresh d1 \<le> fresh d2" "\<forall>q<fresh d1. heap d2 q = heap d1 q"
      "\<forall>x\<in>set rs'. fresh d1 \<le> x \<and> x < fresh d2" "distinct rs'"
      by auto
    show "fresh d \<le> fresh d' \<and> (\<forall>q<fresh d. heap d' q = heap d q)
       \<and> (\<forall>r\<in>set rs. fresh d \<le> r \<and> r < fresh d') \<and> distinct rs"
      unfolding eq using r1 r2 by (auto simp: less_le_trans)
  qed
qed

lemma set_innerHTML_props:
  assumes "n < fresh d"
  shows "fresh d \<le> fresh (set_innerHTML P d n m)"
    and "\<And>q. q < fresh d \<Longrightarrow> q \<noteq> n \<Longrightarrow> heap (set_innerHTML P d n m) q = heap d q"
    and "\<forall>r\<in>set (childNodes (heap (set_innerHTML P d n m) n)). fresh d \<le> r \<and> r < fresh (set_innerHTML P d n m)"
    and "distinct (childNodes (heap (set_innerHTML P d n m) n))"
    and "nodeType (heap (set_innerHTML P d n m) n) = nodeType (heap d n)"
    and "nodeName (heap (set_innerHTML P d n m) n) = nodeName (heap d n)"
    and "childNodes (heap (set_innerHTML P d n m) n) = fst (build_list (P m) (setChildNodes d n []))"
proof -
  let ?d0 = "setChildNodes d n []"
  obtain rs d1 where b: "build_list (P m) ?d0 = (rs, d1)" by (cases "build_list (P m) ?d0")
  have f0: "fresh ?d0 = fresh d" by (simp add: setChildNodes_def)
  from build_props(2)[of "P m" ?d0] b f0
  have p: "fresh d \<le> fresh d1" "\<forall>q<fresh d. heap d1 q = heap ?d0 q"
    "\<forall>r\<in>set rs. fresh d \<le> r \<and> r < fresh d1" "distinct rs"
    by auto
  have s: "set_innerHTML P d n m = setChildNodes d1 n rs"
    using b by (simp add: set_innerHTML_def)
  show "fresh d \<le> fresh (set_innerHTML P d n m)"
    using p(1) by (simp add: s setChildNodes_def)
  show "\<And>q. q < fresh d \<Longrightarrow> q \<noteq> n \<Longrightarrow> heap (set_innerHTML P d n m) q = heap d q"
    using p(2) by (simp add: s setChildNodes_def)
  show "\<forall>r\<in>set (childNodes (heap (set_innerHTML P d n m) n)). fresh d \<le> r \<and> r < fresh (set_innerHTML P d n m)"
    using p(3) by (simp add: s setChildNodes_def)
  show "distinct (childNodes (heap (set_innerHTML P d n m) n))"
    using p(4) by (simp add: s setChildNodes_def)
  show "nodeType (heap (set_innerHTML P d n m) n) = nodeType (heap d n)"
    using p(2) assms by (simp add: s setChildNodes_def)
  show "nodeName (heap (set_innerHTML P d n m) n) = nodeName (heap d n)"
    using p(2) assms by (simp add: s setChildNodes_def)
  show "childNodes (heap (set_innerHTML P d n m) n) = fst (build_list (P m) (setChildNodes d n []))"
    using b by (simp add: s setChildNodes_def)
qed

lemma parentNode_Some_iff:
  "parentNode d n = Some p \<longleftrightarrow>
     p < fresh d \<and> n \<in> set (childNodes (heap d p)) \<and> (\<forall>q<p. n \<notin> set (childNodes (heap d q)))"
proof
  assume "parentNode d n = Some p"
  then obtain i where i: "i < length [0..<fresh d]" "n \<in> set (childNodes (heap d ([0..<fresh d] ! i)))"
    "p = [0..<fresh d] ! i" "\<forall>j<i. n \<notin> set (childNodes (heap d ([0..<fresh d] ! j)))"
    unfolding parentNode_def find_Some_iff by blast
  then show "p < fresh d \<and> n \<in> set (childNodes (heap d p)) \<and> (\<forall>q<p. n \<notin> set (childNodes (heap d q)))"
    by auto
next
  assume a: "p < fresh d \<and> n \<in> set (childNodes (heap d p)) \<and> (\<forall>q<p. n \<notin> set (childNodes (heap d q)))"
  show "parentNode d n = Some p"
    unfolding parentNode_def find_Some_iff
    using a by (intro exI[of _ p]) auto
qed

lemma parentNode_preserved:
  assumes "parentNode d n = Some p" and "fresh d \<le> fresh d'"
    and "\<And>q. q \<le> p \<Longrightarrow> (n \<in> set (childNodes (heap d' q))) = (n \<in> set (childNodes (heap d q)))"
  shows "parentNode d' n = Some p"
  using assms unfolding parentNode_Some_iff by auto





lemma takeWhile_until: "n \<notin> set pre \<Longrightarrow> takeWhile (\<lambda>c. c \<noteq> n) (pre @ n # post) = pre"
  by (induction pre) auto

lemma dropWhile_until: "n \<notin> set pre \<Longrightarrow> dropWhile (\<lambda>c. c \<noteq> n) (pre @ n # post) = n # post"
  by (induction pre) auto


lemma moveChildren_moves:
  assumes "ch \<noteq> node" and "distinct cs" and "childNodes (heap d node) = cs"
  shows "\<exists>d'. moveChildren d node ch = Some d' \<and> fresh d' = fresh d
           \<and> (\<forall>q. heap d' q = (heap d q)\<lparr>childNodes :=
                  (if q = ch then filter (\<lambda>x. x \<notin> set cs) (childNodes (heap d q)) @ cs
                   else filter (\<lambda>x. x \<notin> set cs) (childNodes (heap d q)))\<rparr>)"
  using assms
proof (induction cs arbitrary: d)
  case Nil
  then show ?case
    by (subst moveChildren.simps) (simp add: firstChild_def)
next
  case (Cons c cs)
  let ?d1 = "appendChild d ch c"
  have h1: "heap ?d1 q = (heap d q)\<lparr>childNodes :=
              (if q = ch then removeAll c (childNodes (heap d q)) @ [c]
               else removeAll c (childNodes (heap d q)))\<rparr>" for q
    by (simp add: appendChild_def detach_def setChildNodes_def Let_def)
  have f1: "fresh ?d1 = fresh d"
    by (simp add: appendChild_def detach_def setChildNodes_def Let_def)
  have n1: "childNodes (heap ?d1 node) = cs"
    using Cons.prems by (simp add: h1)
  from Cons.prems have dcs: "distinct cs" and cn: "c \<notin> set cs" by auto
  from Cons.IH[OF Cons.prems(1) dcs n1] obtain d' where d':
    "moveChildren ?d1 node ch = Some d'" "fresh d' = fresh ?d1"
    "\<forall>q. heap d' q = (heap ?d1 q)\<lparr>childNodes :=
                  (if q = ch then filter (\<lambda>x. x \<notin> set cs) (childNodes (heap ?d1 q)) @ cs
                   else filter (\<lambda>x. x \<notin> set cs) (childNodes (heap ?d1 q)))\<rparr>"
    by blast
  have mv: "moveChildren d node ch = Some d'"
    using Cons.prems(3) d'(1) by (subst moveChildren.simps) (simp add: firstChild_def)
  have fl: "filter (\<lambda>x. x \<notin> set cs) (removeAll c xs) = filter (\<lambda>x. x \<notin> set (c # cs)) xs" for xs
    by (induction xs) auto
  have "heap d' q = (heap d q)\<lparr>childNodes :=
                  (if q = ch then filter (\<lambda>x. x \<notin> set (c # cs)) (childNodes (heap d q)) @ c # cs
                   else filter (\<lambda>x. x \<notin> set (c # cs)) (childNodes (heap d q)))\<rparr>" for q
    using d'(3) cn by (simp add: h1 fl)
  with mv d'(2) f1 show ?case by auto
qed

lemma toString10_digits: "\<forall>c\<in>set (toString10 n). 48 \<le> c \<and> c \<le> 57"
proof (induction n rule: toString10.induct)
  case (1 n)
  show ?case
  proof (cases "n < 10")
    case True
    then show ?thesis by (subst toString10.simps) simp
  next
    case False
    have "n mod 10 < 10" by simp
    then have "48 + n mod 10 \<le> 57" by linarith
    with False "1.IH" show ?thesis by (subst toString10.simps) auto
  qed
qed

lemma toUpperCase_header: "toUpperCase (js ''H'' @ toString10 n) = js ''H'' @ toString10 n"
proof -
  have "map (\<lambda>c. if 97 \<le> c \<and> c \<le> 122 then c - 32 else c) (toString10 n) = toString10 n"
    using toString10_digits[of n] by (intro map_idI) auto
  then show ?thesis by (simp add: toUpperCase_def js_def)
qed

lemma takeWhile_hashes:
  "c \<noteq> 35 \<Longrightarrow> takeWhile (\<lambda>c. c = 35) (replicate k 35 @ c # xs) = replicate k 35"
  "c \<noteq> 35 \<Longrightarrow> dropWhile (\<lambda>c. c = 35) (replicate k 35 @ c # xs) = c # xs"
  by (induction k) auto

lemma exec_HeaderText_marker:
  assumes "0 < k" and "isSpace sp"
  shows "exec HeaderTextMark (replicate k 35 @ sp # rest)
           = Some [replicate k 35 @ sp # takeWhile isSpace rest, replicate k 35]"
proof -
  have "sp \<noteq> 35" using assms(2) by (auto simp: isSpace_def)
  with assms show ?thesis
    by (simp add: exec_HeaderText_def takeWhile_hashes Let_def)
qed

lemma replace_HeaderText_marker:
  assumes "0 < k" and "ws \<noteq> []" and "list_all isSpace ws" and "body = [] \<or> \<not> isSpace (hd body)"
  shows "replace_featureMark HeaderTextMark (replicate k 35 @ ws @ body) = body"
proof -
  from assms(2,3) obtain sp ws' where ws: "ws = sp # ws'" "isSpace sp" "list_all isSpace ws'"
    by (cases ws) auto
  have "takeWhile isSpace body = []"
    using assms(4) by (cases body) auto
  then have tw: "takeWhile isSpace (ws' @ body) = ws'"
    using ws(3) by (induction ws') auto
  have "exec HeaderTextMark (replicate k 35 @ sp # (ws' @ body))
           = Some [replicate k 35 @ sp # ws', replicate k 35]"
    using exec_HeaderText_marker[OF assms(1) ws(2), of "ws' @ body"] tw by simp
  then show ?thesis
    by (simp add: replace_featureMark_def ws(1))
qed

lemma set_innerHTML_parent:
  assumes par: "parentNode d n = Some p" and pn: "p \<noteq> n" and nlt: "n < fresh d"
  shows "parentNode (set_innerHTML P d n m) n = Some p"
    and "heap (set_innerHTML P d n m) p = heap d p"
proof -
  let ?d0 = "set_innerHTML P d n m"
  note d0 = set_innerHTML_props[OF nlt, where P=P and m=m]
  have plt: "p < fresh d" and nself: "\<forall>q<p. n \<notin> set (childNodes (heap d q))"
    using par unfolding parentNode_Some_iff by auto
  show "heap ?d0 p = heap d p" using d0(2)[OF plt pn] .
  show "parentNode ?d0 n = Some p"
  proof (rule parentNode_preserved[OF par d0(1)])
    fix q assume q: "q \<le> p"
    show "(n \<in> set (childNodes (heap ?d0 q))) = (n \<in> set (childNodes (heap d q)))"
    proof (cases "q = n")
      case True
      with q pn have "n < p" by simp
      with nself have "n \<notin> set (childNodes (heap d n))" by simp
      moreover have "n \<notin> set (childNodes (heap ?d0 n))"
        using d0(3) nlt by auto
      ultimately show ?thesis using True by simp
    next
      case False
      with q plt have "heap ?d0 q = heap d q" by (intro d0(2)) auto
      then show ?thesis by simp
    qed
  qed
qed

lemma renameNode_replaces:
  assumes par: "parentNode d n = Some p" "isElement d p" "p \<noteq> n"
    and pos: "childNodes (heap d p) = pre @ n # post" "n \<notin> set pre" "n \<notin> set post"
    and wfp: "\<forall>x\<in>set (childNodes (heap d p)). x < fresh d"
    and kids: "distinct (childNodes (heap d n))" "\<forall>x\<in>set (childNodes (heap d n)). x < fresh d"
      "\<forall>x\<in>set (childNodes (heap d n)). x \<notin> set (childNodes (heap d p))"
      "n \<notin> set (childNodes (heap d n))"
  shows "\<exists>d'. renameNode d n tag = Some (Inr (fresh d, d')) \<and> fresh d' = Suc (fresh d)
           \<and> nodeType (heap d' (fresh d)) = ELEMENT_NODE
           \<and> nodeName (heap d' (fresh d)) = toUpperCase tag
           \<and> childNodes (heap d' (fresh d)) = childNodes (heap d n)
           \<and> childNodes (heap d' p) = pre @ fresh d # post
           \<and> childNodes (heap d' n) = []"
proof -
  let ?h = "fresh d"
  let ?cs = "childNodes (heap d n)"
  let ?el = "\<lparr>nodeType = ELEMENT_NODE, nodeName = toUpperCase tag, attributes = [], ndata = [], childNodes = []\<rparr>"
  let ?d1 = "d\<lparr>heap := (heap d)(?h := ?el), fresh := Suc ?h\<rparr>"
  have "n \<in> set (childNodes (heap d p))" by (simp add: pos(1))
  with wfp have nlt: "n < fresh d" by blast
  have plt: "p < fresh d" using par(1) unfolding parentNode_Some_iff by auto
  have ph: "p \<noteq> ?h" and nh: "n \<noteq> ?h" using plt nlt by auto
  have hcs: "?h \<notin> set ?cs" using kids(2) by auto
  have hnot: "?h \<notin> set (pre @ n # post)"
  proof
    assume "?h \<in> set (pre @ n # post)"
    then have "?h \<in> set (childNodes (heap d p))" by (simp only: pos(1))
    with wfp have "?h < fresh d" by blast
    then show False by simp
  qed
  have ce: "createElement d tag = (?h, ?d1)" by (simp add: createElement_def)
  have "childNodes (heap ?d1 n) = ?cs" using nh by simp
  from moveChildren_moves[OF nh[symmetric] kids(1) this] obtain d2 where d2:
    "moveChildren ?d1 n ?h = Some d2" "fresh d2 = Suc ?h"
    "\<forall>q. heap d2 q = (heap ?d1 q)\<lparr>childNodes :=
        (if q = ?h then filter (\<lambda>x. x \<notin> set ?cs) (childNodes (heap ?d1 q)) @ ?cs
         else filter (\<lambda>x. x \<notin> set ?cs) (childNodes (heap ?d1 q)))\<rparr>"
    by auto
  have fid: "filter (\<lambda>x. x \<notin> set ?cs) (pre @ n # post) = pre @ n # post"
  proof -
    have "\<forall>x\<in>set (pre @ n # post). x \<notin> set ?cs"
    proof
      fix x assume "x \<in> set (pre @ n # post)"
      then have "x \<in> set (childNodes (heap d p))" by (simp only: pos(1))
      with kids(3) show "x \<notin> set ?cs" by blast
    qed
    then show ?thesis by (rule filter_True)
  qed
  have c2p: "childNodes (heap d2 p) = pre @ n # post"
    using d2(3) ph pos(1) fid by simp
  have c2h: "childNodes (heap d2 ?h) = ?cs" using d2(3) by simp
  have c2n: "childNodes (heap d2 n) = []" using d2(3) nh by simp
  have t2: "nodeType (heap d2 q) = nodeType (heap ?d1 q)" "nodeName (heap d2 q) = nodeName (heap ?d1 q)" for q
    using d2(3) by simp_all
  have mem2: "(n \<in> set (childNodes (heap d2 q))) = (n \<in> set (childNodes (heap d q)))" if "q \<noteq> ?h" for q
    using d2(3) that kids(4) by auto
  have par2: "parentNode d2 n = Some p"
  proof (rule parentNode_preserved[OF par(1)])
    show "fresh d \<le> fresh d2" using d2(2) by simp
  next
    fix q assume "q \<le> p"
    with plt have "q \<noteq> ?h" by auto
    then show "(n \<in> set (childNodes (heap d2 q))) = (n \<in> set (childNodes (heap d q)))" by (rule mem2)
  qed
  let ?d3 = "setChildNodes (detach d2 ?h) p (pre @ ?h # n # post)"
  have ib: "insertBefore d2 p ?h n = Inr ?d3"
  proof -
    have cs: "childNodes (heap (detach d2 ?h) p) = pre @ n # post"
      using c2p hnot by (simp add: detach_def)
    have "takeWhile (\<lambda>c. c \<noteq> n) (pre @ n # post) = pre"
      using pos(2) by (rule takeWhile_until)
    moreover have "dropWhile (\<lambda>c. c \<noteq> n) (pre @ n # post) = n # post"
      using pos(2) by (rule dropWhile_until)
    ultimately show ?thesis
      using c2p cs by (simp add: insertBefore_def Let_def)
  qed
  have c3p: "childNodes (heap ?d3 p) = pre @ ?h # n # post"
    by (simp add: setChildNodes_def)
  have par3: "parentNode ?d3 n = Some p"
  proof (rule parentNode_preserved[OF par2])
    show "fresh d2 \<le> fresh ?d3" by (simp add: setChildNodes_def detach_def)
  next
    fix q assume q: "q \<le> p"
    show "(n \<in> set (childNodes (heap ?d3 q))) = (n \<in> set (childNodes (heap d2 q)))"
    proof (cases "q = p")
      case True
      then show ?thesis using c3p c2p by simp
    next
      case False
      then show ?thesis using nh by (simp add: setChildNodes_def detach_def)
    qed
  qed
  have el3: "isElement ?d3 p"
    using par(2) ph t2(1)[of p] by (simp add: isElement_def setChildNodes_def detach_def)
  have pe3: "parentElement ?d3 n = Some p" using par3 el3 by (simp add: parentElement_def)
  let ?d4 = "setChildNodes ?d3 p (pre @ ?h # post)"
  have rc: "removeChild ?d3 p n = Inr ?d4"
    using c3p pos(2,3) nh by (simp add: removeChild_def)
  have res: "renameNode d n tag = Some (Inr (?h, ?d4))"
    unfolding renameNode_def using ce d2(1) par2 ib pe3 rc by simp
  have "fresh ?d4 = Suc ?h" using d2(2) by (simp add: setChildNodes_def detach_def)
  moreover have "nodeType (heap ?d4 ?h) = ELEMENT_NODE" "nodeName (heap ?d4 ?h) = toUpperCase tag"
    using ph t2[of ?h] by (simp_all add: setChildNodes_def detach_def)
  moreover have "childNodes (heap ?d4 ?h) = ?cs"
    using ph c2h hcs by (simp add: setChildNodes_def detach_def)
  moreover have "childNodes (heap ?d4 p) = pre @ ?h # post"
    by (simp add: setChildNodes_def)
  moreover have "childNodes (heap ?d4 n) = []"
    using par(3) c2n by (simp add: setChildNodes_def detach_def)
  ultimately show ?thesis using res by blast
qed

subsection \<open>Horizontal rule and header\<close>




text \<open>
  The header override on a block node whose text starts with \<open>k \<ge> 1\<close> hashes and a white
  space character, and which stands once among the children of a parent element: it
  returns, with \<open>parent = null\<close>, a newly created element named \<open>H\<close> followed by \<open>k\<close> in
  decimal, standing where the node stood; the node is out of the tree and left without
  children.  The children of the header are the nodes that the parser creates from the
  markup of the node after \<open>replace\<close> has been applied to it, in order.  When that markup
  itself starts with the hashes and white space, these are cut off before parsing.
\<close>

lemma HeaderText_Elevate_header:
  assumes tx: "textContent d n = replicate k 35 @ sp # rest" "0 < k" "isSpace sp"
    and par: "parentNode d n = Some p" "isElement d p" "p \<noteq> n"
    and pos: "childNodes (heap d p) = pre @ n # post" "n \<notin> set pre" "n \<notin> set post"
    and wf: "list_all (\<lambda>x. x < fresh d) (childNodes (heap d p))"
  shows "\<exists>h d'. container_Elevate P HeaderText d (Some n)
                  = Some (Inr (Some \<lparr>parent = None, child = h\<rparr>, d'))
           \<and> fresh d \<le> h \<and> nodeType (heap d' h) = ELEMENT_NODE
           \<and> nodeName (heap d' h) = js ''H'' @ toString10 k
           \<and> childNodes (heap d' p) = pre @ h # post \<and> childNodes (heap d' n) = []
           \<and> childNodes (heap d' h)
               = fst (build_list (P (replace_featureMark HeaderTextMark (replace_nbsp (get_innerHTML d n))))
                        (setChildNodes d n []))
           \<and> (\<forall>ws body. replace_nbsp (get_innerHTML d n) = replicate k 35 @ ws @ body
                  \<and> ws \<noteq> [] \<and> list_all isSpace ws \<and> (body = [] \<or> \<not> isSpace (hd body))
                \<longrightarrow> childNodes (heap d' h) = fst (build_list (P body) (setChildNodes d n [])))"
proof -
  let ?markup = "replace_featureMark HeaderTextMark (replace_nbsp (get_innerHTML d n))"
  let ?d0 = "set_innerHTML P d n ?markup"
  let ?mr = "[replicate k 35 @ sp # takeWhile isSpace rest, replicate k 35]"
  have wf': "\<forall>x\<in>set (childNodes (heap d p)). x < fresh d"
    using wf by (simp add: list_all_iff)
  have "n \<in> set (childNodes (heap d p))" by (simp add: pos(1))
  with wf' have nlt: "n < fresh d" by blast
  have m: "exec HeaderTextMark (textContent d n) = Some ?mr"
    unfolding tx(1) using tx(2,3) by (rule exec_HeaderText_marker)
  have prep: "prepareElevate P HeaderText d (Some n) = (Some ?mr, ?d0)"
    using m by (simp add: prepareElevate_def HeaderText_def)
  note d0 = set_innerHTML_props[OF nlt, where P=P and m="?markup"]
  note p0 = set_innerHTML_parent[OF par(1,3) nlt, where P=P and m="?markup"]
  have el0: "isElement ?d0 p" using par(2) p0(2) by (simp add: isElement_def)
  have pos0: "childNodes (heap ?d0 p) = pre @ n # post" using p0(2) pos(1) by simp
  have wf0: "\<forall>x\<in>set (childNodes (heap ?d0 p)). x < fresh ?d0"
    using wf' d0(1) p0(2) by auto
  have k2: "\<forall>x\<in>set (childNodes (heap ?d0 n)). x < fresh ?d0" using d0(3) by blast
  have k3: "\<forall>x\<in>set (childNodes (heap ?d0 n)). x \<notin> set (childNodes (heap ?d0 p))"
  proof
    fix x assume "x \<in> set (childNodes (heap ?d0 n))"
    with d0(3) have "fresh d \<le> x" by blast
    with wf' show "x \<notin> set (childNodes (heap ?d0 p))" unfolding p0(2) by auto
  qed
  have k4: "n \<notin> set (childNodes (heap ?d0 n))" using d0(3) nlt by auto
  from renameNode_replaces[OF p0(1) el0 par(3) pos0 pos(2,3) wf0 d0(4) k2 k3 k4,
      of "js ''H'' @ toString10 k"]
  obtain d' where d':
    "renameNode ?d0 n (js ''H'' @ toString10 k) = Some (Inr (fresh ?d0, d'))"
    "nodeType (heap d' (fresh ?d0)) = ELEMENT_NODE"
    "nodeName (heap d' (fresh ?d0)) = toUpperCase (js ''H'' @ toString10 k)"
    "childNodes (heap d' (fresh ?d0)) = childNodes (heap ?d0 n)"
    "childNodes (heap d' p) = pre @ fresh ?d0 # post"
    "childNodes (heap d' n) = []"
    by blast
  have res: "container_Elevate P HeaderText d (Some n)
               = Some (Inr (Some \<lparr>parent = None, child = fresh ?d0\<rparr>, d'))"
    unfolding container_Elevate_def HeaderText_Elevate_def prep
    using d'(1) by (simp add: HeaderText_def)
  have kids: "childNodes (heap d' (fresh ?d0)) = fst (build_list (P ?markup) (setChildNodes d n []))"
    using d'(4) d0(7) by simp
  have cut: "\<forall>ws body. replace_nbsp (get_innerHTML d n) = replicate k 35 @ ws @ body
                  \<and> ws \<noteq> [] \<and> list_all isSpace ws \<and> (body = [] \<or> \<not> isSpace (hd body))
                \<longrightarrow> childNodes (heap d' (fresh ?d0)) = fst (build_list (P body) (setChildNodes d n []))"
  proof (intro allI impI)
    fix ws body
    assume a: "replace_nbsp (get_innerHTML d n) = replicate k 35 @ ws @ body
                  \<and> ws \<noteq> [] \<and> list_all isSpace ws \<and> (body = [] \<or> \<not> isSpace (hd body))"
    then have "?markup = body"
      using replace_HeaderText_marker[OF tx(2), of ws body] by simp
    with kids show "childNodes (heap d' (fresh ?d0)) = fst (build_list (P body) (setChildNodes d n []))"
      by simp
  qed
  show ?thesis
    using res d0(1) d'(2,3,5,6) kids cut unfolding toUpperCase_header
    by blast
qed

lemma HeaderText_Elevate_header_example:
  "textContent (doc_block ''# Hello'') 1 = replicate 1 35 @ 32 # js ''Hello''
   \<and> replace_nbsp (get_innerHTML (doc_block ''# Hello'') 1) = replicate 1 35 @ [32] @ js ''Hello''
   \<and> (\<exists>h d'. container_Elevate parseHTML_sample HeaderText (doc_block ''# Hello'') (Some 1)
                  = Some (Inr (Some \<lparr>parent = None, child = h\<rparr>, d'))
           \<and> nodeName (heap d' h) = js ''H'' @ toString10 1
           \<and> childNodes (heap d' 0) = [] @ h # [] \<and> childNodes (heap d' 1) = []
           \<and> childNodes (heap d' h)
               = fst (build_list (parseHTML_sample (js ''Hello'')) (setChildNodes (doc_block ''# Hello'') 1 [])))"
proof -
  have t: "textContent (doc_block ''# Hello'') 1 = replicate 1 35 @ 32 # js ''Hello''"
    by (simp add: dom_eval)
  have mk: "replace_nbsp (get_innerHTML (doc_block ''# Hello'') 1) = replicate 1 35 @ [32] @ js ''Hello''"
    by (simp add: dom_eval)
  have p: "parentNode (doc_block ''# Hello'') 1 = Some 0" "isElement (doc_block ''# Hello'') 0" "(0::nat) \<noteq> 1"
    by (simp_all add: dom_eval)
  have c: "childNodes (heap (doc_block ''# Hello'') 0) = [] @ 1 # []" "(1::nat) \<notin> set []"
    by (simp_all add: dom_eval)
  have w: "list_all (\<lambda>x. x < fresh (doc_block ''# Hello'')) (childNodes (heap (doc_block ''# Hello'') 0))"
    by (simp add: dom_eval)
  have k: "(0::nat) < 1" "isSpace 32" by (simp_all add: isSpace_def)
  have b: "[32] \<noteq> [] \<and> list_all isSpace [32] \<and> (js ''Hello'' = [] \<or> \<not> isSpace (hd (js ''Hello'')))"
    by (simp add: isSpace_def js_def)
  from HeaderText_Elevate_header[OF t k p c(1,2,2) w, of parseHTML_sample] mk b t
  show ?thesis by blast
qed

text \<open>
  C7.  The marker is not removed when it stands inside inline markup.  On
  \<^verbatim>\<open><div><p><b># x</b></p></div>\<close> the text of the \<open>p\<close> is \<^verbatim>\<open># x\<close> and matches the
  feature mark, so the header \<open>H1\<close> is created, with \<open>parent = null\<close>, in the place of the
  \<open>p\<close>.  But \<open>prepareElevate\<close> cuts the match from the markup \<^verbatim>\<open><b># x</b>\<close>, which starts
  with \<^verbatim>\<open><b>\<close>: nothing is cut, and the text of the header still is \<^verbatim>\<open># x\<close>.
\<close>

theorem HeaderText_Elevate_marker_kept:
  "textContent doc_bold_header 1 = js ''# x''
   \<and> exec (featureMark HeaderText) (textContent doc_bold_header 1) = Some [js ''# '', js ''#'']
   \<and> removeFeatureMark HeaderText
   \<and> get_innerHTML doc_bold_header 1 = js ''<b># x</b>''
   \<and> (case container_Elevate parseHTML_sample HeaderText doc_bold_header (Some 1) of
        Some (Inr (Some r, d')) \<Rightarrow>
          parent r = None \<and> nodeName (heap d' (child r)) = js ''H1''
          \<and> childNodes (heap d' 0) = [child r]
          \<and> textContent d' (child r) = js ''# x''
          \<and> get_innerHTML d' (child r) = js ''<b># x</b>''
      | _ \<Rightarrow> False)"
  by (simp add: dom_eval doc_eval)

subsection \<open>The parent step\<close>

lemma wrapOrMerge_merge:
  assumes "pn \<noteq> []" and "previousElementSibling d ch = Some sib" and "nodeName (heap d sib) = pn"
  shows "wrapOrMerge d ch (Some pn) = Inr (Some sib, appendChild d sib ch)"
    and "fresh (appendChild d sib ch) = fresh d"
    and "childNodes (heap (appendChild d sib ch) sib) = removeAll ch (childNodes (heap d sib)) @ [ch]"
    and "\<forall>q. q \<noteq> sib \<longrightarrow> childNodes (heap (appendChild d sib ch) q) = removeAll ch (childNodes (heap d q))"
  using assms
  by (simp_all add: wrapOrMerge_def mergeTarget_def truthy_def appendChild_def detach_def
      setChildNodes_def Let_def)

lemma map_replace_absent: "ch \<notin> set xs \<Longrightarrow> map (\<lambda>c. if c = ch then w else c) xs = xs"
  by (induction xs) auto

lemma wrapOrMerge_wrap:
  assumes pn: "pn \<noteq> []"
    and nomerge: "mergeTarget d ch pn = None"
    and par: "parentNode d ch = Some p"
    and pos: "childNodes (heap d p) = pre @ ch # post" "ch \<notin> set pre" "ch \<notin> set post"
    and wf: "\<forall>x\<in>set (childNodes (heap d p)). x < fresh d"
  shows "\<exists>d'. wrapOrMerge d ch (Some pn) = Inr (Some (fresh d), d')
           \<and> nodeType (heap d' (fresh d)) = ELEMENT_NODE
           \<and> nodeName (heap d' (fresh d)) = toUpperCase pn
           \<and> childNodes (heap d' (fresh d)) = [ch]
           \<and> childNodes (heap d' p) = pre @ fresh d # post"
proof -
  let ?w = "fresh d"
  let ?el = "\<lparr>nodeType = ELEMENT_NODE, nodeName = toUpperCase pn, attributes = [], ndata = [], childNodes = []\<rparr>"
  let ?d1 = "d\<lparr>heap := (heap d)(?w := ?el), fresh := Suc ?w\<rparr>"
  have "ch \<in> set (childNodes (heap d p))" by (simp add: pos(1))
  with wf have clt: "ch < fresh d" by blast
  have plt: "p < fresh d" using par unfolding parentNode_Some_iff by auto
  have pw: "p \<noteq> ?w" and cw: "ch \<noteq> ?w" using plt clt by auto
  have wnot: "?w \<notin> set (pre @ ch # post)"
  proof
    assume "?w \<in> set (pre @ ch # post)"
    then have "?w \<in> set (childNodes (heap d p))" by (simp only: pos(1))
    with wf have "?w < fresh d" by blast
    then show False by simp
  qed
  have ce: "createElement d pn = (?w, ?d1)" by (simp add: createElement_def)
  have par1: "parentNode ?d1 ch = Some p"
  proof (rule parentNode_preserved[OF par])
    show "fresh d \<le> fresh ?d1" by simp
  next
    fix q assume "q \<le> p"
    with plt have "q \<noteq> ?w" by auto
    then show "(ch \<in> set (childNodes (heap ?d1 q))) = (ch \<in> set (childNodes (heap d q)))" by simp
  qed
  have c1p: "childNodes (heap ?d1 p) = pre @ ch # post" using pw pos(1) by simp
  have mp: "map (\<lambda>c. if c = ch then ?w else c) (pre @ ch # post) = pre @ ?w # post"
    using pos(2,3) by (simp add: map_replace_absent)
  let ?d2 = "setChildNodes (detach ?d1 ?w) p (pre @ ?w # post)"
  have rc: "replaceChild ?d1 p ?w ch = Inr ?d2"
  proof -
    have "childNodes (heap (detach ?d1 ?w) p) = pre @ ch # post"
      using c1p wnot by (simp add: detach_def)
    with c1p mp show ?thesis by (simp add: replaceChild_def Let_def)
  qed
  let ?d3 = "appendChild ?d2 ?w ch"
  have wr: "wrap ?d1 ?w ch = Inr ?d3"
    using par1 rc by (simp add: wrap_def)
  have res: "wrapOrMerge d ch (Some pn) = Inr (Some ?w, ?d3)"
    using pn nomerge ce wr by (simp add: wrapOrMerge_def truthy_def Let_def)
  have "nodeType (heap ?d3 ?w) = ELEMENT_NODE" "nodeName (heap ?d3 ?w) = toUpperCase pn"
    "childNodes (heap ?d3 ?w) = [ch]"
    using pw by (simp_all add: appendChild_def detach_def setChildNodes_def Let_def)
  moreover have "childNodes (heap ?d3 p) = pre @ ?w # post"
    using pw cw pos(2,3) by (simp add: appendChild_def detach_def setChildNodes_def Let_def)
  ultimately show ?thesis using res by blast
qed

text \<open>
  C6 (amended).  With a non-empty \<open>parentNodeName\<close>: if the nearest preceding sibling of the
  child that is an element (text and comment nodes in between are skipped) has that name,
  the child is moved to the end of that sibling's children, the sibling is the returned
  parent and no node is created.  If there is no preceding element sibling, or it has
  another name, a new element of that name is created, takes the place of the child among
  the children of the child's parent, and holds the child as its only child.
\<close>

theorem wrapOrMerge_sibling:
  assumes "pn \<noteq> []"
  shows "(previousElementSibling d ch = Some sib \<and> nodeName (heap d sib) = pn \<longrightarrow>
            wrapOrMerge d ch (Some pn) = Inr (Some sib, appendChild d sib ch)
            \<and> fresh (appendChild d sib ch) = fresh d
            \<and> childNodes (heap (appendChild d sib ch) sib) = removeAll ch (childNodes (heap d sib)) @ [ch]
            \<and> (\<forall>q. q \<noteq> sib \<longrightarrow> childNodes (heap (appendChild d sib ch) q) = removeAll ch (childNodes (heap d q))))
       \<and> ((previousElementSibling d ch = None
             \<or> (\<exists>e. previousElementSibling d ch = Some e \<and> nodeName (heap d e) \<noteq> pn))
           \<and> parentNode d ch = Some p \<and> childNodes (heap d p) = pre @ ch # post
           \<and> ch \<notin> set pre \<and> ch \<notin> set post \<and> list_all (\<lambda>x. x < fresh d) (childNodes (heap d p)) \<longrightarrow>
            (\<exists>d'. wrapOrMerge d ch (Some pn) = Inr (Some (fresh d), d')
               \<and> nodeType (heap d' (fresh d)) = ELEMENT_NODE
               \<and> nodeName (heap d' (fresh d)) = toUpperCase pn
               \<and> childNodes (heap d' (fresh d)) = [ch]
               \<and> childNodes (heap d' p) = pre @ fresh d # post))"
proof (rule conjI; rule impI)
  assume a: "previousElementSibling d ch = Some sib \<and> nodeName (heap d sib) = pn"
  with assms wrapOrMerge_merge[of pn d ch sib]
  show "wrapOrMerge d ch (Some pn) = Inr (Some sib, appendChild d sib ch)
            \<and> fresh (appendChild d sib ch) = fresh d
            \<and> childNodes (heap (appendChild d sib ch) sib) = removeAll ch (childNodes (heap d sib)) @ [ch]
            \<and> (\<forall>q. q \<noteq> sib \<longrightarrow> childNodes (heap (appendChild d sib ch) q) = removeAll ch (childNodes (heap d q)))"
    by blast
next
  assume a: "(previousElementSibling d ch = None
             \<or> (\<exists>e. previousElementSibling d ch = Some e \<and> nodeName (heap d e) \<noteq> pn))
           \<and> parentNode d ch = Some p \<and> childNodes (heap d p) = pre @ ch # post
           \<and> ch \<notin> set pre \<and> ch \<notin> set post \<and> list_all (\<lambda>x. x < fresh d) (childNodes (heap d p))"
  then have nm: "mergeTarget d ch pn = None"
    by (auto simp: mergeTarget_def)
  have wf: "\<forall>x\<in>set (childNodes (heap d p)). x < fresh d"
    using a by (simp add: list_all_iff)
  from a wrapOrMerge_wrap[OF assms nm _ _ _ _ wf, of pre post]
  show "\<exists>d'. wrapOrMerge d ch (Some pn) = Inr (Some (fresh d), d')
               \<and> nodeType (heap d' (fresh d)) = ELEMENT_NODE
               \<and> nodeName (heap d' (fresh d)) = toUpperCase pn
               \<and> childNodes (heap d' (fresh d)) = [ch]
               \<and> childNodes (heap d' p) = pre @ fresh d # post"
    by blast
qed

theorem wrapOrMerge_sibling_witness:
  "previousElementSibling doc_quote 4 = Some 1 \<and> nodeName (heap doc_quote 1) = js ''BLOCKQUOTE''
   \<and> wrapOrMerge doc_quote 4 (Some (js ''BLOCKQUOTE'')) = Inr (Some 1, appendChild doc_quote 1 4)
   \<and> childNodes (heap (appendChild doc_quote 1 4) 1) = [2, 4]
   \<and> childNodes (heap (appendChild doc_quote 1 4) 0) = [1]
   \<and> previousElementSibling doc_quote 1 = None
   \<and> (\<exists>d'. wrapOrMerge doc_quote 1 (Some (js ''UL'')) = Inr (Some (fresh doc_quote), d')
         \<and> nodeName (heap d' (fresh doc_quote)) = js ''UL''
         \<and> childNodes (heap d' (fresh doc_quote)) = [1]
         \<and> childNodes (heap d' 0) = [] @ fresh doc_quote # [4])
   \<and> (case container_Elevate parseHTML_sample BLOCKQUOTE doc_quote (Some 4) of
         Some (Inr (Some r, d')) \<Rightarrow>
           parent r = Some 1 \<and> child r = 4 \<and> childNodes (heap d' 0) = [1]
           \<and> childNodes (heap d' 1) = [2, 4] \<and> textContent d' 4 = js ''more''
       | _ \<Rightarrow> False)"
proof -
  have ne: "js ''BLOCKQUOTE'' \<noteq> []" "js ''UL'' \<noteq> []" by (simp_all add: js_def)
  have a: "previousElementSibling doc_quote 4 = Some 1 \<and> nodeName (heap doc_quote 1) = js ''BLOCKQUOTE''"
    by (simp add: dom_eval doc_eval)
  have m: "wrapOrMerge doc_quote 4 (Some (js ''BLOCKQUOTE'')) = Inr (Some 1, appendChild doc_quote 1 4)
     \<and> childNodes (heap (appendChild doc_quote 1 4) 1) = removeAll 4 (childNodes (heap doc_quote 1)) @ [4]
     \<and> (\<forall>q. q \<noteq> 1 \<longrightarrow> childNodes (heap (appendChild doc_quote 1 4) q) = removeAll 4 (childNodes (heap doc_quote q)))"
    using wrapOrMerge_sibling[OF ne(1), of doc_quote 4 1] a by blast
  have c1: "childNodes (heap (appendChild doc_quote 1 4) 1) = [2, 4]"
    using m by (simp add: dom_eval doc_eval)
  have c0: "childNodes (heap (appendChild doc_quote 1 4) 0) = [1]"
    using m by (simp add: dom_eval doc_eval)
  have b: "(previousElementSibling doc_quote 1 = None
             \<or> (\<exists>e. previousElementSibling doc_quote 1 = Some e \<and> nodeName (heap doc_quote e) \<noteq> js ''UL''))
           \<and> parentNode doc_quote 1 = Some 0 \<and> childNodes (heap doc_quote 0) = [] @ 1 # [4]
           \<and> 1 \<notin> set [] \<and> (1::nat) \<notin> set [4]
           \<and> list_all (\<lambda>x. x < fresh doc_quote) (childNodes (heap doc_quote 0))"
    by (simp add: dom_eval doc_eval)
  have up: "toUpperCase (js ''UL'') = js ''UL''" by (simp add: toUpperCase_def js_def)
  have "\<exists>d'. wrapOrMerge doc_quote 1 (Some (js ''UL'')) = Inr (Some (fresh doc_quote), d')
         \<and> nodeType (heap d' (fresh doc_quote)) = ELEMENT_NODE
         \<and> nodeName (heap d' (fresh doc_quote)) = toUpperCase (js ''UL'')
         \<and> childNodes (heap d' (fresh doc_quote)) = [1]
         \<and> childNodes (heap d' 0) = [] @ fresh doc_quote # [4]"
    by (rule mp[OF conjunct2[OF wrapOrMerge_sibling[OF ne(2), where d=doc_quote and ch=1 and p=0
            and pre="[]" and post="[4]" and sib=0]] b])
  then have w: "\<exists>d'. wrapOrMerge doc_quote 1 (Some (js ''UL'')) = Inr (Some (fresh doc_quote), d')
         \<and> nodeName (heap d' (fresh doc_quote)) = js ''UL''
         \<and> childNodes (heap d' (fresh doc_quote)) = [1]
         \<and> childNodes (heap d' 0) = [] @ fresh doc_quote # [4]"
    unfolding up by blast
  have p: "previousElementSibling doc_quote 1 = None"
    by (simp add: dom_eval doc_eval)
  have e: "case container_Elevate parseHTML_sample BLOCKQUOTE doc_quote (Some 4) of
         Some (Inr (Some r, d')) \<Rightarrow>
           parent r = Some 1 \<and> child r = 4 \<and> childNodes (heap d' 0) = [1]
           \<and> childNodes (heap d' 1) = [2, 4] \<and> textContent d' 4 = js ''more''
       | _ \<Rightarrow> False"
    by (simp add: dom_eval doc_eval)
  from a m c1 c0 p w e show ?thesis by blast
qed

text \<open>
  C6 as stated fails when a text node stands between the blocks: the immediately preceding
  sibling of the block is that text node, which is no \<open>BLOCKQUOTE\<close>, and still the block is
  merged into the blockquote before it.  The only node created is the re-parsed text.
\<close>

theorem wrapOrMerge_sibling_counterexample:
  "childNodes (heap doc_quote_gap 0) = [1, 6, 4]
   \<and> nodeType (heap doc_quote_gap 6) = TEXT_NODE
   \<and> nodeName (heap doc_quote_gap 6) \<noteq> js ''BLOCKQUOTE''
   \<and> (case container_Elevate parseHTML_sample BLOCKQUOTE doc_quote_gap (Some 4) of
         Some (Inr (Some r, d')) \<Rightarrow>
           parent r = Some 1 \<and> child r = 4 \<and> childNodes (heap d' 1) = [2, 4]
           \<and> childNodes (heap d' 0) = [1, 6] \<and> fresh d' = 8
           \<and> nodeType (heap d' 7) = TEXT_NODE
       | _ \<Rightarrow> False)"
  by (simp add: dom_eval doc_eval)

end
